theory Spec2Isabelle
  imports Main "HOL-Library.Word"
begin

section \<open>Characters and tokens (token.h)\<close>

text \<open>
  A C string is modelled by the list of its characters before the terminating NUL, so
  the empty list is the position where \<open>*input\<close> reads 0.  Error messages are
  modelled by their text: every caller passes a message buffer of 128 bytes or more,
  which holds each message of the shell without truncation.
\<close>

abbreviation NUL :: char where "NUL \<equiv> CHR 0x00"
abbreviation DQUOTE :: char where "DQUOTE \<equiv> CHR 0x22"
abbreviation BACKSLASH :: char where "BACKSLASH \<equiv> CHR 0x5C"

datatype TokenType = TOK_WORD | TOK_QUOTED_WORD | TOK_LESSTHAN | TOK_GREATERTHAN | TOK_PIPE | TOK_END

text \<open>
  The struct \<open>Token\<close> carries a type and, for the two word types only, a value.
  \<open>TOK_END\<close> is never stored in a list: it is what \<open>TOK_next_type\<close> answers on the
  empty list.
\<close>

datatype Token = Word string | QuotedWord string | LessThan | GreaterThan | Pipe

fun TOK_type :: "Token \<Rightarrow> TokenType" where
  "TOK_type (Word v) = TOK_WORD"
| "TOK_type (QuotedWord v) = TOK_QUOTED_WORD"
| "TOK_type LessThan = TOK_LESSTHAN"
| "TOK_type GreaterThan = TOK_GREATERTHAN"
| "TOK_type Pipe = TOK_PIPE"

fun TOK_next_type :: "Token list \<Rightarrow> TokenType" where
  "TOK_next_type [] = TOK_END"
| "TOK_next_type (t # ts) = TOK_type t"

fun TOK_text :: "Token \<Rightarrow> string" where
  "TOK_text (Word v) = v"
| "TOK_text (QuotedWord v) = v"
| "TOK_text LessThan = ''<''"
| "TOK_text GreaterThan = ''>''"
| "TOK_text Pipe = ''|''"

section \<open>The tokenizer (tokenize.c)\<close>

definition isescape :: "char \<Rightarrow> bool" where
  "isescape ch \<longleftrightarrow>
     ch = CHR ''n'' \<or> ch = CHR ''r'' \<or> ch = CHR ''t'' \<or> ch = CHR '' '' \<or>
     ch = DQUOTE \<or> ch = CHR ''>'' \<or> ch = CHR ''<'' \<or> ch = CHR ''|'' \<or>
     ch = BACKSLASH"

text \<open>\<open>isspace\<close> of the C locale: space, \<open>\t\<close>, \<open>\n\<close>, \<open>\v\<close>, \<open>\f\<close>, \<open>\r\<close>.\<close>

definition isspace :: "char \<Rightarrow> bool" where
  "isspace ch \<longleftrightarrow>
     ch = CHR '' '' \<or> ch = CHR 0x09 \<or> ch = CHR 0x0A \<or> ch = CHR 0x0B \<or>
     ch = CHR 0x0C \<or> ch = CHR 0x0D"

text \<open>\<open>*input\<close>: the character under the cursor, NUL at the end of the string.\<close>

fun peek :: "string \<Rightarrow> char" where
  "peek [] = NUL"
| "peek (ch # input) = ch"

text \<open>
  The message \<open>"Illegal escape character %c"\<close>.  When the backslash is the last
  character of the line, \<open>%c\<close> prints the NUL itself, which ends the message.
\<close>

definition illegal_escape :: "char \<Rightarrow> string" where
  "illegal_escape ch = ''Illegal escape character '' @ (if ch = NUL then [] else [ch])"

text \<open>
  The inner loop of the quote branch,
  \<open>while (*input && *input != '"') if ((ch = *input++) == '\\' && !isescape(*input)) ...\<close>.
  \<open>body\<close> holds the characters passed since the opening quote.  It returns the body
  and the rest of the input from the cursor on: empty at the end of the line, and
  otherwise starting with the double quote that stopped the loop.
\<close>

fun scan_quoted :: "string \<Rightarrow> string \<Rightarrow> string + (string \<times> string)" where
  "scan_quoted body [] = Inr (body, [])"
| "scan_quoted body (ch # input) =
     (if ch = DQUOTE then Inr (body, ch # input)
      else if ch = BACKSLASH \<and> \<not> isescape (peek input) then Inl (illegal_escape (peek input))
      else scan_quoted (body @ [ch]) input)"

lemma scan_quoted_shorter:
  "scan_quoted body input = Inr (body', input') \<Longrightarrow> length input' \<le> length input"
  by (induction body input rule: scan_quoted.induct) (auto split: if_splits)

text \<open>The pending word, if any, ends: \<open>if (start) CL_append(tokens, TOK_nnew(TOK_WORD, ...))\<close>.\<close>

fun flush :: "string option \<Rightarrow> Token list" where
  "flush None = []"
| "flush (Some word) = [Word word]"

fun operator :: "char \<Rightarrow> Token list" where
  "operator ch =
     (if ch = CHR ''<'' then [LessThan]
      else if ch = CHR ''>'' then [GreaterThan]
      else if ch = CHR ''|'' then [Pipe]
      else [])"

fun pending :: "string option \<Rightarrow> string" where
  "pending None = []"
| "pending (Some word) = word"

text \<open>
  The main loop of \<open>TOK_tokenize_input\<close>.  \<open>start\<close> is the pointer to the first
  character of the word in progress (\<open>None\<close> is \<open>NULL\<close>), held as the characters
  from \<open>start\<close> up to the cursor; \<open>tokens\<close> is the list built so far, which an
  error frees.
\<close>

function tok_loop :: "string option \<Rightarrow> string \<Rightarrow> Token list \<Rightarrow> string + Token list" where
  "tok_loop start [] tokens = Inr tokens"
| "tok_loop start (ch # input) tokens =
     (if ch = DQUOTE then
        (case scan_quoted [] input of
           Inl err \<Rightarrow> Inl err
         | Inr (body, input') \<Rightarrow>
             (case input' of
                [] \<Rightarrow> Inl ''Unterminated quote''
              | q # input'' \<Rightarrow>
                  tok_loop None input''
                    (tokens @ flush start @ [QuotedWord (DQUOTE # body @ [q])])))
      else if ch = CHR ''<'' \<or> ch = CHR ''>'' \<or> ch = CHR ''|'' \<or> isspace ch then
        tok_loop None input (tokens @ flush start @ operator ch)
      else if ch = BACKSLASH then
        (case input of
           [] \<Rightarrow> Inl (illegal_escape NUL)
         | esc # input' \<Rightarrow>
             if \<not> isescape esc then Inl (illegal_escape esc)
             else if input' = [] then Inr (tokens @ [Word (pending start @ [ch, esc])])
             else tok_loop (Some (pending start @ [ch, esc])) input' tokens)
      else if input = [] then Inr (tokens @ [Word (pending start @ [ch])])
      else tok_loop (Some (pending start @ [ch])) input tokens)"
  by pat_completeness auto
termination
  by (relation "measure (\<lambda>(start, input, tokens). length input)")
     (auto dest: scan_quoted_shorter)

definition TOK_tokenize_input :: "string \<Rightarrow> string + Token list" where
  "TOK_tokenize_input input = tok_loop None input []"

section \<open>The pipeline tree (pipeline.c)\<close>

datatype ASTNodeType = WORD | QUOTED_WORD | OP_LESSTHAN | OP_GREATERTHAN | OP_PIPE

text \<open>
  \<open>struct _ast_node\<close> with its four fields; \<open>Null\<close> is the \<open>NULL\<close> pointer.  Every
  node is owned by exactly one parent, so the tree is a value and an update in place
  is the construction of the updated tree.
\<close>

datatype AST = Null | Node (ntype: ASTNodeType) (nvalue: "string option") (left: AST) (right: AST)

text \<open>The constructors abort on a failed \<open>assert\<close>: the result \<open>None\<close>.\<close>

definition AST_word :: "ASTNodeType \<Rightarrow> AST \<Rightarrow> string \<Rightarrow> AST option" where
  "AST_word type r v =
     (if type = WORD \<or> type = QUOTED_WORD then Some (Node type (Some v) Null r) else None)"

definition AST_redirect :: "ASTNodeType \<Rightarrow> AST \<Rightarrow> AST option" where
  "AST_redirect type r =
     (if type = OP_LESSTHAN \<or> type = OP_GREATERTHAN then
        (case r of
           Null \<Rightarrow> None
         | Node rtype rv rl rr \<Rightarrow> if rtype = WORD then Some (Node type None Null r) else None)
      else None)"

definition AST_pipe :: "AST \<Rightarrow> AST \<Rightarrow> AST option" where
  "AST_pipe l r = (if l \<noteq> Null \<and> r \<noteq> Null then Some (Node OP_PIPE None l r) else None)"

text \<open>
  \<open>AST_append\<close> hangs \<open>x\<close> at the end of the chain of \<open>right\<close> pointers that
  starts at the pipeline's first node; the pipeline itself is replaced when it is
  \<open>NULL\<close>, and nothing happens when \<open>x\<close> is \<open>NULL\<close>.
\<close>

fun AST_append :: "AST \<Rightarrow> AST \<Rightarrow> AST" where
  "AST_append pipeline Null = pipeline"
| "AST_append Null x = x"
| "AST_append (Node type v l r) x = Node type v l (AST_append r x)"

text \<open>\<open>AST_type\<close> asserts that the pipeline is not \<open>NULL\<close>.\<close>

fun AST_type :: "AST \<Rightarrow> ASTNodeType option" where
  "AST_type Null = None"
| "AST_type (Node type v l r) = Some type"

fun AST_countnodes :: "AST \<Rightarrow> nat" where
  "AST_countnodes Null = 0"
| "AST_countnodes (Node type v l r) =
     1 + (if type = OP_PIPE then AST_countnodes l else 0) + AST_countnodes r"

fun AST_countpipes :: "AST \<Rightarrow> nat" where
  "AST_countpipes Null = 0"
| "AST_countpipes (Node type v l r) = (if type = OP_PIPE then 1 + AST_countpipes l else 0)"

text \<open>The number of nodes of one type anywhere in the tree.\<close>

fun count_type :: "ASTNodeType \<Rightarrow> AST \<Rightarrow> nat" where
  "count_type t Null = 0"
| "count_type t (Node type v l r) = (if type = t then 1 else 0) + count_type t l + count_type t r"

section \<open>The parser (parse.c)\<close>

text \<open>
  The enumerations \<open>TokenType\<close> and \<open>ASTNodeType\<close> list their first five members
  in the same order, and \<open>Parse\<close> passes the one for the other.
\<close>

fun node_type :: "TokenType \<Rightarrow> ASTNodeType option" where
  "node_type TOK_WORD = Some WORD"
| "node_type TOK_QUOTED_WORD = Some QUOTED_WORD"
| "node_type TOK_LESSTHAN = Some OP_LESSTHAN"
| "node_type TOK_GREATERTHAN = Some OP_GREATERTHAN"
| "node_type TOK_PIPE = Some OP_PIPE"
| "node_type TOK_END = None"

text \<open>
  The system's \<open>glob\<close> is a parameter: \<open>glob pattern\<close> is \<open>None\<close> when the call
  returns an error code and otherwise the list \<open>gl_pathv\<close>.  \<open>append_words\<close> is the
  loop of \<open>glob_append\<close> over the paths.
\<close>

type_synonym globber = "string \<Rightarrow> string list option"

fun append_words :: "AST \<Rightarrow> string list \<Rightarrow> AST option" where
  "append_words pipeline [] = Some pipeline"
| "append_words pipeline (path # paths) =
     (case AST_word WORD Null path of
        None \<Rightarrow> None
      | Some w \<Rightarrow> append_words (AST_append pipeline w) paths)"

datatype parse_error = ParseError string | AssertionFailed

definition glob_append :: "globber \<Rightarrow> AST \<Rightarrow> string \<Rightarrow> parse_error + AST" where
  "glob_append glob pipeline v =
     (case glob v of
        None \<Rightarrow> Inl (ParseError ''Glob encountered an error'')
      | Some paths \<Rightarrow>
          (case append_words pipeline paths of
             None \<Rightarrow> Inl AssertionFailed
           | Some p \<Rightarrow> Inr p))"

record parse_state =
  ret :: AST
  redirect_in :: nat
  redirect_out :: nat

definition Parse_init :: parse_state where
  "Parse_init = \<lparr>ret = Null, redirect_in = 0, redirect_out = 0\<rparr>"

text \<open>
  The branch of \<open>Parse\<close> for \<open>TOK_LESSTHAN\<close> and \<open>TOK_GREATERTHAN\<close>.  The message
  buffer is empty on entry (an error returns at once), and each \<open>snprintf\<close> of the
  branch overwrites it; \<open>tokens\<close> is the list after the operator was consumed.
  The message stays empty only when the next token is a \<open>Word\<close>, so the last case
  of \<open>case tokens\<close> is never reached; the same holds in the branch for the pipe.
\<close>

definition Parse_redirect ::
  "globber \<Rightarrow> parse_state \<Rightarrow> TokenType \<Rightarrow> Token list \<Rightarrow> parse_error + parse_state \<times> Token list" where
  "Parse_redirect glob st tt tokens =
     (let rin = redirect_in st + (if tt = TOK_LESSTHAN then 1 else 0);
          rout = redirect_out st + (if tt = TOK_GREATERTHAN then 1 else 0);
          msg1 = (if ret st = Null then ''No command specified'' else []);
          msg2 = (if ret st \<noteq> Null \<and>
                     (AST_type (ret st) = Some OP_LESSTHAN \<or> AST_type (ret st) = Some OP_GREATERTHAN)
                  then ''No command specified'' else msg1);
          msg3 = (if msg2 = [] \<and> (rin > 1 \<or> rout > 1) then ''Multiple redirection'' else msg2);
          next_tt = TOK_next_type tokens;
          msg4 = (if msg3 = [] \<and> next_tt \<noteq> TOK_WORD
                  then ''Expect filename after redirection'' else msg3)
      in if msg4 \<noteq> [] then Inl (ParseError msg4)
         else
           (case tokens of
              Word v # tokens' \<Rightarrow>
                (case glob_append glob Null v of
                   Inl err \<Rightarrow> Inl err
                 | Inr tempfile \<Rightarrow>
                     (case node_type tt of
                        None \<Rightarrow> Inl AssertionFailed
                      | Some type \<Rightarrow>
                          (case AST_redirect type tempfile of
                             None \<Rightarrow> Inl AssertionFailed
                           | Some r \<Rightarrow>
                               Inr (\<lparr>ret = AST_append (ret st) r,
                                     redirect_in = rin, redirect_out = rout\<rparr>, tokens'))))
            | _ \<Rightarrow> Inl AssertionFailed))"

text \<open>The branch for \<open>TOK_PIPE\<close>.\<close>

definition Parse_pipe ::
  "globber \<Rightarrow> parse_state \<Rightarrow> Token list \<Rightarrow> parse_error + parse_state \<times> Token list" where
  "Parse_pipe glob st tokens =
     (let msg1 = (if ret st = Null then ''No command specified'' else []);
          next_tt = TOK_next_type tokens;
          msg2 = (if msg1 = [] \<and> next_tt \<noteq> TOK_WORD \<and> next_tt \<noteq> TOK_QUOTED_WORD
                  then ''No command specified'' else msg1)
      in if msg2 \<noteq> [] then Inl (ParseError msg2)
         else
           (case tokens of
              Word v # tokens' \<Rightarrow>
                (case glob_append glob Null v of
                   Inl err \<Rightarrow> Inl err
                 | Inr tempcmd \<Rightarrow>
                     (case AST_pipe (ret st) tempcmd of
                        None \<Rightarrow> Inl AssertionFailed
                      | Some p \<Rightarrow> Inr (st\<lparr>ret := p\<rparr>, tokens')))
            | QuotedWord v # tokens' \<Rightarrow>
                (case AST_word QUOTED_WORD Null v of
                   None \<Rightarrow> Inl AssertionFailed
                 | Some tempcmd \<Rightarrow>
                     (case AST_pipe (ret st) tempcmd of
                        None \<Rightarrow> Inl AssertionFailed
                      | Some p \<Rightarrow> Inr (st\<lparr>ret := p\<rparr>, tokens')))
            | _ \<Rightarrow> Inl AssertionFailed))"

text \<open>
  One turn of the loop of \<open>Parse\<close>: \<open>token\<close> is the token taken from the front and
  \<open>tokens\<close> the list behind it.  The last branch of the source,
  \<open>"Unexpected token"\<close>, needs a token type other than the five of a stored token.
\<close>

fun Parse_body ::
  "globber \<Rightarrow> parse_state \<Rightarrow> Token \<Rightarrow> Token list \<Rightarrow> parse_error + parse_state \<times> Token list" where
  "Parse_body glob st (QuotedWord v) tokens =
     (case AST_word QUOTED_WORD Null v of
        None \<Rightarrow> Inl AssertionFailed
      | Some w \<Rightarrow> Inr (st\<lparr>ret := AST_append (ret st) w\<rparr>, tokens))"
| "Parse_body glob st (Word v) tokens =
     (case glob_append glob (ret st) v of
        Inl err \<Rightarrow> Inl err
      | Inr p \<Rightarrow> Inr (st\<lparr>ret := p\<rparr>, tokens))"
| "Parse_body glob st LessThan tokens = Parse_redirect glob st TOK_LESSTHAN tokens"
| "Parse_body glob st GreaterThan tokens = Parse_redirect glob st TOK_GREATERTHAN tokens"
| "Parse_body glob st Pipe tokens = Parse_pipe glob st tokens"

lemma Parse_redirect_shorter:
  "Parse_redirect glob st tt tokens = Inr (st', tokens') \<Longrightarrow> length tokens' \<le> length tokens"
  unfolding Parse_redirect_def Let_def
  by (auto split: if_splits list.splits Token.splits sum.splits option.splits)

lemma Parse_pipe_shorter:
  "Parse_pipe glob st tokens = Inr (st', tokens') \<Longrightarrow> length tokens' \<le> length tokens"
  unfolding Parse_pipe_def Let_def
  by (auto split: if_splits list.splits Token.splits sum.splits option.splits)

lemma Parse_body_shorter:
  "Parse_body glob st token tokens = Inr (st', tokens') \<Longrightarrow> length tokens' \<le> length tokens"
  by (cases token)
     (auto dest: Parse_redirect_shorter Parse_pipe_shorter split: sum.splits option.splits)

function Parse_loop :: "globber \<Rightarrow> parse_state \<Rightarrow> Token list \<Rightarrow> parse_error + parse_state" where
  "Parse_loop glob st [] = Inr st"
| "Parse_loop glob st (token # tokens) =
     (case Parse_body glob st token tokens of
        Inl err \<Rightarrow> Inl err
      | Inr (st', tokens') \<Rightarrow> Parse_loop glob st' tokens')"
  by pat_completeness auto
termination
  by (relation "measure (\<lambda>(glob, st, tokens). length tokens)")
     (auto dest: Parse_body_shorter)

text \<open>\<open>Parse\<close> returns the tree, or \<open>NULL\<close> with a message.\<close>

definition Parse :: "globber \<Rightarrow> Token list \<Rightarrow> parse_error + AST" where
  "Parse glob tokens =
     (case Parse_loop glob Parse_init tokens of
        Inl err \<Rightarrow> Inl err
      | Inr st \<Rightarrow> Inr (ret st))"

text \<open>The globber that matches nothing and returns each pattern as it is (\<open>GLOB_NOCHECK\<close>).\<close>

definition glob_literal :: globber where
  "glob_literal pattern = Some [pattern]"

section \<open>Rendering (pipeline.c)\<close>

text \<open>
  The caller's array \<open>buf\<close> of \<open>buf_sz\<close> bytes is a list of that length, with
  whatever it held before the call.  An access outside it is the result
  \<open>OutOfBounds\<close>.
\<close>

datatype mem_error = OutOfBounds

definition mem_read :: "string \<Rightarrow> nat \<Rightarrow> mem_error + char" where
  "mem_read buf i = (if i < length buf then Inr (buf ! i) else Inl OutOfBounds)"

definition mem_write :: "string \<Rightarrow> nat \<Rightarrow> char \<Rightarrow> mem_error + string" where
  "mem_write buf i ch = (if i < length buf then Inr (buf[i := ch]) else Inl OutOfBounds)"

text \<open>
  \<open>snprintf(buf + pos, n, ...)\<close> for the formatted text \<open>text\<close>: with \<open>n = 0\<close>
  nothing is written, and otherwise the first \<open>n - 1\<close> characters of the text and a
  NUL are.  It returns the length of the whole text.  \<open>AST_sprint\<close> calls it with
  \<open>pos + n = buf_sz\<close>, so that it stays inside the array.
\<close>

definition store :: "string \<Rightarrow> nat \<Rightarrow> string \<Rightarrow> string" where
  "store buf pos xs = take pos buf @ xs @ drop (pos + length xs) buf"

definition snprintf :: "string \<Rightarrow> nat \<Rightarrow> nat \<Rightarrow> string \<Rightarrow> string" where
  "snprintf buf pos n text = (if n = 0 then buf else store buf pos (take (n - 1) text @ [NUL]))"

fun ASTNodeType_to_char :: "ASTNodeType \<Rightarrow> char" where
  "ASTNodeType_to_char WORD = CHR ''w''"
| "ASTNodeType_to_char QUOTED_WORD = CHR ''W''"
| "ASTNodeType_to_char OP_LESSTHAN = CHR ''<''"
| "ASTNodeType_to_char OP_GREATERTHAN = CHR ''>''"
| "ASTNodeType_to_char OP_PIPE = CHR ''|''"

text \<open>
  What one node prints: \<open>"%s "\<close> of its value for a word, \<open>"%c "\<close> of its type's
  character for a redirect.  A word node has a value (\<open>AST_word\<close> asserts it);
  glibc prints a \<open>NULL\<close> string as \<open>(null)\<close>.
\<close>

definition node_text :: "ASTNodeType \<Rightarrow> string option \<Rightarrow> string" where
  "node_text type v =
     (if type = WORD \<or> type = QUOTED_WORD
      then (case v of None \<Rightarrow> ''(null)'' | Some s \<Rightarrow> s) @ '' ''
      else [ASTNodeType_to_char type, CHR '' ''])"

text \<open>
  \<open>AST_sprint\<close>, with the file's variable \<open>size\<close> (here \<open>sz\<close>) and the array passed along:
  \<open>size += min(buf_sz - size, snprintf(buf + size, buf_sz - size, ...))\<close>.
\<close>

fun AST_sprint :: "AST \<Rightarrow> nat \<Rightarrow> string \<times> nat \<Rightarrow> string \<times> nat" where
  "AST_sprint Null buf_sz (buf, sz) = (buf, sz)"
| "AST_sprint (Node type v l r) buf_sz (buf, sz) =
     (if sz \<ge> buf_sz then (buf, sz)
      else if type = OP_PIPE then
        (case AST_sprint l buf_sz (buf, sz) of
           (buf1, sz1) \<Rightarrow>
             AST_sprint r buf_sz
               (snprintf buf1 sz1 (buf_sz - sz1) ''| '',
                sz1 + min (buf_sz - sz1) (length ''| '')))
      else
        AST_sprint r buf_sz
          (snprintf buf sz (buf_sz - sz) (node_text type v),
           sz + min (buf_sz - sz) (length (node_text type v))))"

text \<open>
  \<open>while (buf[size-1] == ' ') --size;\<close>.  With \<open>sz = 0\<close> the index \<open>sz - 1\<close>
  wraps around to the largest \<open>size_t\<close>, outside every array.
\<close>

fun trim_spaces :: "string \<Rightarrow> nat \<Rightarrow> mem_error + nat" where
  "trim_spaces buf 0 = Inl OutOfBounds"
| "trim_spaces buf (Suc n) =
     (case mem_read buf n of
        Inl err \<Rightarrow> Inl err
      | Inr ch \<Rightarrow> if ch = CHR '' '' then trim_spaces buf n else Inr (Suc n))"

text \<open>
  \<open>AST_pipeline2str\<close> returns the array and the length written.  The branch that
  marks a truncation decrements \<open>sz\<close> and then writes at \<open>sz\<close> and at
  \<open>sz - 1\<close>; each decrement of 0 wraps around as above.
\<close>

definition AST_pipeline2str :: "AST \<Rightarrow> string \<Rightarrow> mem_error + string \<times> nat" where
  "AST_pipeline2str pipeline buf =
     (let buf_sz = length buf in
      case AST_sprint pipeline buf_sz (buf, 0) of
        (buf1, sz1) \<Rightarrow>
          (case trim_spaces buf1 sz1 of
             Inl err \<Rightarrow> Inl err
           | Inr sz2 \<Rightarrow>
               if sz2 < buf_sz then
                 (case mem_write buf1 sz2 NUL of
                    Inl err \<Rightarrow> Inl err
                  | Inr buf2 \<Rightarrow> Inr (buf2, sz2))
               else
                 (case sz2 of
                    0 \<Rightarrow> Inl OutOfBounds
                  | Suc sz3 \<Rightarrow>
                      (case mem_write buf1 sz3 NUL of
                         Inl err \<Rightarrow> Inl err
                       | Inr buf2 \<Rightarrow>
                           (case sz3 of
                              0 \<Rightarrow> Inl OutOfBounds
                            | Suc sz4 \<Rightarrow>
                                (case mem_write buf2 sz4 (CHR ''$'') of
                                   Inl err \<Rightarrow> Inl err
                                 | Inr buf3 \<Rightarrow> Inr (buf3, sz3)))))))"

text \<open>The C string that an array holds: its characters before the first NUL.\<close>

definition c_string :: "string \<Rightarrow> string" where
  "c_string buf = takeWhile (\<lambda>ch. ch \<noteq> NUL) buf"

text \<open>A chain of unquoted word nodes, and its words joined by single spaces.\<close>

fun word_chain :: "string list \<Rightarrow> AST" where
  "word_chain [] = Null"
| "word_chain (w # ws) = Node WORD (Some w) Null (word_chain ws)"

fun join_words :: "string list \<Rightarrow> string" where
  "join_words [] = []"
| "join_words [w] = w"
| "join_words (w # ws) = w @ '' '' @ join_words ws"

section \<open>Execution (pipeline.c)\<close>

text \<open>
  An argument vector is the list of the pointers stored before the terminating
  \<open>NULL\<close>; \<open>argv_at\<close> reads \<open>argv[k]\<close>, which is \<open>NULL\<close> at the terminator.
\<close>

type_synonym argv = "string option list"

definition argv_at :: "argv \<Rightarrow> nat \<Rightarrow> string option" where
  "argv_at av k = (if k < length av then av ! k else None)"

definition isword :: "ASTNodeType \<Rightarrow> bool" where
  "isword type \<longleftrightarrow> type = WORD \<or> type = QUOTED_WORD"

text \<open>
  The two loops of \<open>setargs\<close> over one chain of \<open>right\<close> pointers: the count
  \<open>argcs[i]\<close> of its nodes, and the entries of \<open>argvs[i]\<close>, where a word gives its
  value and a redirect the string \<open><\<close> or \<open>>\<close>.
\<close>

fun chain_argc :: "AST \<Rightarrow> nat" where
  "chain_argc Null = 0"
| "chain_argc (Node type v l r) = 1 + chain_argc r"

fun chain_argv :: "AST \<Rightarrow> argv" where
  "chain_argv Null = []"
| "chain_argv (Node type v l r) =
     (if isword type then [v]
      else if type = OP_LESSTHAN then [Some ''<'']
      else if type = OP_GREATERTHAN then [Some ''>'']
      else []) @ chain_argv r"

text \<open>
  \<open>setargs\<close> fills the slots from the last stage down along the \<open>left\<close>
  pointers.  A slot it never reaches stays uninitialised: \<open>None\<close>.
\<close>

fun setargs :: "AST \<Rightarrow> (nat \<times> argv) option list" where
  "setargs Null = [None]"
| "setargs (Node type v l r) =
     (if type = OP_PIPE then setargs l @ [Some (chain_argc r, chain_argv r)]
      else [Some (chain_argc (Node type v l r), chain_argv (Node type v l r))])"

text \<open>
  The operating system, as the parent process meets it.  \<open>pipe_ok i\<close> and
  \<open>fork_ok i\<close> say whether the call for pipe or stage \<open>i\<close> succeeds;
  \<open>wait_result i\<close> is what the \<open>i\<close>-th \<open>wait\<close> returns together with the status
  word it leaves in \<open>exit_status\<close> (anything at all when \<open>wait\<close> fails and stores
  nothing); \<open>chdir_result cwd path\<close> is the new working directory, or \<open>None\<close> when
  \<open>chdir\<close> fails, as it does on a \<open>NULL\<close> path.
\<close>

record os =
  pipe_ok :: "nat \<Rightarrow> bool"
  fork_ok :: "nat \<Rightarrow> bool"
  wait_result :: "nat \<Rightarrow> int \<times> 32 word"
  getenv_HOME :: "string option"
  chdir_result :: "string \<Rightarrow> string option \<Rightarrow> string option"

datatype event = Perror string | ChildExited int int

text \<open>
  What the parent process changes: its working directory, the children it has forked
  (stage and argument vector) and the lines it has printed.  The code of a child
  after \<open>fork\<close> runs in the child and ends in \<open>exec\<close> or \<open>_exit\<close>; it never
  comes back to the parent's loop.
\<close>

record world =
  cwd :: string
  children :: "(nat \<times> argv) list"
  printed :: "event list"

datatype outcome = Returned int | Exited int | Crashed

definition WEXITSTATUS :: "32 word \<Rightarrow> int" where
  "WEXITSTATUS status = uint (drop_bit 8 (and status 0xff00))"

text \<open>The loop that creates the pipes: \<open>True\<close> when every \<open>pipe\<close> call succeeded.\<close>

fun make_pipes :: "os \<Rightarrow> nat \<Rightarrow> nat \<Rightarrow> bool" where
  "make_pipes sys i 0 = True"
| "make_pipes sys i (Suc n) = (if pipe_ok sys i then make_pipes sys (Suc i) n else False)"

text \<open>The built-in \<open>cd\<close>: \<open>dirpath = argv[1]\<close>, or \<open>getenv("HOME")\<close> when that is \<open>NULL\<close>.\<close>

definition builtin_cd :: "os \<Rightarrow> world \<Rightarrow> argv \<Rightarrow> world" where
  "builtin_cd sys w av =
     (let dirpath = (case argv_at av 1 of None \<Rightarrow> getenv_HOME sys | Some d \<Rightarrow> Some d)
      in case chdir_result sys (cwd w) dirpath of
           None \<Rightarrow> w\<lparr>printed := printed w @ [Perror ''cd'']\<rparr>
         | Some dir \<Rightarrow> w\<lparr>cwd := dir\<rparr>)"

text \<open>
  The loop over the stages, from stage \<open>i\<close> on.  It ends the process (\<open>Some\<close>) at
  \<open>exit\<close> or \<open>quit\<close>, at a failed \<open>fork\<close>, and where it reads a missing
  vector or command name; otherwise it runs to the end (\<open>None\<close>).
\<close>

fun run_stages :: "os \<Rightarrow> world \<Rightarrow> nat \<Rightarrow> (nat \<times> argv) option list \<Rightarrow> outcome option \<times> world" where
  "run_stages sys w i [] = (None, w)"
| "run_stages sys w i (None # stages) = (Some Crashed, w)"
| "run_stages sys w i (Some (argc, av) # stages) =
     (case argv_at av 0 of
        None \<Rightarrow> (Some Crashed, w)
      | Some cmd \<Rightarrow>
          if cmd = ''exit'' \<or> cmd = ''quit'' then (Some (Exited 0), w)
          else if cmd = ''cd'' then run_stages sys (builtin_cd sys w av) (Suc i) stages
          else if \<not> fork_ok sys i then
            (Some (Exited 1), w\<lparr>printed := printed w @ [Perror ''fork'']\<rparr>)
          else run_stages sys (w\<lparr>children := children w @ [(i, av)]\<rparr>) (Suc i) stages)"

text \<open>The loop that waits \<open>num_children\<close> times, from turn \<open>i\<close> on.\<close>

fun wait_loop :: "os \<Rightarrow> nat \<Rightarrow> nat \<Rightarrow> int \<times> event list \<Rightarrow> int \<times> event list" where
  "wait_loop sys i 0 (exit_val, out) = (exit_val, out)"
| "wait_loop sys i (Suc n) (exit_val, out) =
     (case wait_result sys i of
        (pid, exit_status) \<Rightarrow>
          if pid > 0 \<and> WEXITSTATUS exit_status \<noteq> 0
          then wait_loop sys (Suc i) n
                 (WEXITSTATUS exit_status, out @ [ChildExited pid (WEXITSTATUS exit_status)])
          else wait_loop sys (Suc i) n (exit_val, out))"

definition AST_execute :: "os \<Rightarrow> world \<Rightarrow> AST \<Rightarrow> outcome \<times> world" where
  "AST_execute sys w pipeline =
     (let num_pipes = AST_countpipes pipeline;
          num_children = num_pipes + 1;
          argvs = setargs pipeline
      in if \<not> make_pipes sys 0 num_pipes
         then (Exited 1, w\<lparr>printed := printed w @ [Perror ''pipe'']\<rparr>)
         else
           (case run_stages sys w 0 argvs of
              (Some ended, w1) \<Rightarrow> (ended, w1)
            | (None, w1) \<Rightarrow>
                (case wait_loop sys 0 num_children (0, printed w1) of
                   (exit_val, out) \<Rightarrow> (Returned exit_val, w1\<lparr>printed := out\<rparr>))))"

text \<open>
  A stage that forks: it has a command name, and the name is not a built-in of the
  parent.
\<close>

definition external_stage :: "(nat \<times> argv) option \<Rightarrow> bool" where
  "external_stage slot =
     (case slot of
        None \<Rightarrow> False
      | Some (argc, av) \<Rightarrow>
          (case argv_at av 0 of
             None \<Rightarrow> False
           | Some cmd \<Rightarrow> cmd \<noteq> ''exit'' \<and> cmd \<noteq> ''quit'' \<and> cmd \<noteq> ''cd''))"

text \<open>
  The aggregate exit status of a pipeline: the exit status of the last wait result
  that has a valid child and a status other than 0; 0 when there is none.
\<close>

definition last_nonzero_status :: "(int \<times> 32 word) list \<Rightarrow> int" where
  "last_nonzero_status results =
     (case filter (\<lambda>(pid, status). pid > 0 \<and> WEXITSTATUS status \<noteq> 0) results of
        [] \<Rightarrow> 0
      | r # rs \<Rightarrow> WEXITSTATUS (snd (last (r # rs))))"

section \<open>Invariants of the parser's loop\<close>

text \<open>The two counters count the redirect nodes of the tree, and neither exceeds one.\<close>

definition redirects_counted :: "parse_state \<Rightarrow> bool" where
  "redirects_counted st \<longleftrightarrow>
     count_type OP_LESSTHAN (ret st) = redirect_in st \<and>
     count_type OP_GREATERTHAN (ret st) = redirect_out st \<and>
     redirect_in st \<le> 1 \<and> redirect_out st \<le> 1"

text \<open>
  The first node of the pipeline is never a redirect, and while the pipeline is
  empty no redirect has been counted.
\<close>

definition command_first :: "parse_state \<Rightarrow> bool" where
  "command_first st \<longleftrightarrow>
     (case ret st of
        Null \<Rightarrow> redirect_in st = 0 \<and> redirect_out st = 0
      | Node type v l r \<Rightarrow> type \<noteq> OP_LESSTHAN \<and> type \<noteq> OP_GREATERTHAN)"

definition is_redirect_token :: "Token \<Rightarrow> bool" where
  "is_redirect_token t \<longleftrightarrow> t = LessThan \<or> t = GreaterThan"

text \<open>The counter that a redirection operator increments.\<close>

fun seen :: "Token \<Rightarrow> parse_state \<Rightarrow> nat" where
  "seen LessThan st = redirect_in st"
| "seen GreaterThan st = redirect_out st"
| "seen token st = 0"

definition redirect_type :: "Token \<Rightarrow> ASTNodeType" where
  "redirect_type t = (if t = LessThan then OP_LESSTHAN else OP_GREATERTHAN)"

section \<open>Notions for the tokenizer's properties\<close>

text \<open>The characters that end an unquoted word without being part of a token of their own
  kind: the three operators and white space.\<close>

definition delimiter :: "char \<Rightarrow> bool" where
  "delimiter ch \<longleftrightarrow> ch = CHR ''<'' \<or> ch = CHR ''>'' \<or> ch = CHR ''|'' \<or> isspace ch"

text \<open>
  The text of an unquoted word in progress: characters that are neither a double
  quote nor a delimiter, and backslashes each followed by a character that
  \<open>isescape\<close> accepts.
\<close>

fun unquoted_word_text :: "string \<Rightarrow> bool" where
  "unquoted_word_text [] = True"
| "unquoted_word_text [ch] = (ch \<noteq> BACKSLASH \<and> ch \<noteq> DQUOTE \<and> \<not> delimiter ch)"
| "unquoted_word_text (ch # esc # input) =
     (if ch = BACKSLASH then isescape esc \<and> unquoted_word_text input
      else ch \<noteq> DQUOTE \<and> \<not> delimiter ch \<and> unquoted_word_text (esc # input))"

text \<open>Tokens put in front of the result of tokenizing the rest; an error stays.\<close>

fun prepend :: "Token list \<Rightarrow> string + Token list \<Rightarrow> string + Token list" where
  "prepend ts (Inl err) = Inl err"
| "prepend ts (Inr ts') = Inr (ts @ ts')"

text \<open>
  The tokenizer from inside a quoted word: the inner loop went over \<open>body\<close> already,
  and the tokens so far are \<open>tokens\<close>.
\<close>

definition quoted_from :: "string \<Rightarrow> string \<Rightarrow> Token list \<Rightarrow> string + Token list" where
  "quoted_from body input tokens =
     (case scan_quoted body input of
        Inl err \<Rightarrow> Inl err
      | Inr (body', input') \<Rightarrow>
          (case input' of
             [] \<Rightarrow> Inl ''Unterminated quote''
           | q # input'' \<Rightarrow> tok_loop None input'' (tokens @ [QuotedWord (DQUOTE # body' @ [q])])))"

text \<open>
  The input is the token texts in their order, with nothing but white space before,
  between and after them: \<open>seps\<close> are those stretches of white space.
\<close>

fun weave :: "string list \<Rightarrow> string list \<Rightarrow> string" where
  "weave [] texts = concat texts"
| "weave (sep # seps) [] = sep @ concat seps"
| "weave (sep # seps) (t # texts) = sep @ t @ weave seps texts"

definition verbatim :: "string \<Rightarrow> Token list \<Rightarrow> bool" where
  "verbatim input ts \<longleftrightarrow>
     (\<exists>seps. length seps = Suc (length ts) \<and> list_all (list_all isspace) seps \<and>
             input = weave seps (map TOK_text ts))"




section \<open>Notions for the properties of rendering and execution\<close>

text \<open>What \<open>AST_sprint\<close> prints for a chain of words: each word and a space.\<close>

definition spaced :: "string list \<Rightarrow> string" where
  "spaced ws = concat (map (\<lambda>w. w @ '' '') ws)"

text \<open>
  The value of \<open>exit_val\<close> after the wait results \<open>results\<close>, when it was
  \<open>exit_val\<close> before them.
\<close>

definition aggregate :: "int \<Rightarrow> (int \<times> 32 word) list \<Rightarrow> int" where
  "aggregate exit_val results =
     (case filter (\<lambda>(pid, status). pid > 0 \<and> WEXITSTATUS status \<noteq> 0) results of
        [] \<Rightarrow> exit_val
      | r # rs \<Rightarrow> WEXITSTATUS (snd (last (r # rs))))"

text \<open>
  A system for the examples: every \<open>pipe\<close>, \<open>fork\<close> and \<open>chdir\<close> succeeds, the
  new working directory is the path as given, and the first two \<open>wait\<close> calls reap
  a child that exited with 3 and one that exited with 0.  In \<open>childless_os\<close> there is
  no child to wait for: \<open>wait\<close> fails and leaves the status word as it was.
\<close>

definition example_os :: os where
  "example_os =
     \<lparr>pipe_ok = (\<lambda>i. True), fork_ok = (\<lambda>i. True),
      wait_result = (\<lambda>i. if i = 0 then (101, 0x0300) else if i = 1 then (102, 0) else (-1, 0x0700)),
      getenv_HOME = Some ''/home/user'',
      chdir_result = (\<lambda>cwd path. path)\<rparr>"

definition childless_os :: os where
  "childless_os = example_os\<lparr>wait_result := (\<lambda>i. (-1, 0x0700))\<rparr>"

definition example_world :: world where
  "example_world = \<lparr>cwd = ''/tmp'', children = [], printed = []\<rparr>"

text \<open>
  The value of the node that follows a command name, if any, and whether what follows
  is a word or nothing at all.
\<close>

fun first_argument :: "AST \<Rightarrow> string option" where
  "first_argument Null = None"
| "first_argument (Node type v l r) = v"

fun word_or_nothing :: "AST \<Rightarrow> bool" where
  "word_or_nothing Null = True"
| "word_or_nothing (Node type v l r) = isword type"

section \<open>Properties of the tokenizer\<close>

lemma prepend_prepend [simp]: "prepend ts (prepend ts' r) = prepend (ts @ ts') r"
  by (cases r) auto

lemma prepend_Nil [simp]: "prepend [] r = r"
  by (cases r) auto

lemma tok_loop_prepend: "tok_loop start input tokens = prepend tokens (tok_loop start input [])"
proof (induction "length input" arbitrary: start input tokens rule: less_induct)
  case less
  show ?case
  proof (cases input)
    case Nil
    then show ?thesis by simp
  next
    case (Cons ch rest)
    have ih: "\<And>start' input' tokens'. length input' < length input \<Longrightarrow>
        tok_loop start' input' tokens' = prepend tokens' (tok_loop start' input' [])"
      using less by blast
    show ?thesis
    proof (cases "ch = DQUOTE")
      case True
      show ?thesis
      proof (cases "scan_quoted [] rest")
        case (Inl err)
        then show ?thesis using True Cons by simp
      next
        case (Inr pair)
        obtain body input' where pair: "pair = (body, input')" by (cases pair)
        show ?thesis
        proof (cases input')
          case Nil
          then show ?thesis using True Cons Inr pair by simp
        next
          case c2: (Cons q input'')
          have "length input' \<le> length rest"
            using scan_quoted_shorter Inr pair by blast
          then have len: "length input'' < length input" using c2 Cons by simp
          show ?thesis
            using True Cons Inr pair c2
            by (simp add: ih[OF len, of None "tokens @ flush start @ [QuotedWord (DQUOTE # body @ [q])]"]
                  ih[OF len, of None "flush start @ [QuotedWord (DQUOTE # body @ [q])]"])
        qed
      qed
    next
      case nq: False
      have len: "length rest < length input" using Cons by simp
      show ?thesis
      proof (cases "ch = CHR ''<'' \<or> ch = CHR ''>'' \<or> ch = CHR ''|'' \<or> isspace ch")
        case True
        show ?thesis
          using nq True Cons
          by (simp add: ih[OF len, of None "tokens @ flush start @ operator ch"]
                ih[OF len, of None "flush start @ operator ch"] del: operator.simps)
      next
        case nd: False
        show ?thesis
        proof (cases "ch = BACKSLASH")
          case True
          show ?thesis
          proof (cases rest)
            case Nil
            then show ?thesis using nq nd True Cons by simp
          next
            case c3: (Cons esc rest')
            have len': "length rest' < length input" using Cons c3 by simp
            show ?thesis
              using nq nd True Cons c3 ih[OF len', of "Some (pending start @ [ch, esc])" tokens]
              by simp
          qed
        next
          case False
          show ?thesis
            using nq nd False Cons ih[OF len, of "Some (pending start @ [ch])" tokens]
            by simp
        qed
      qed
    qed
  qed
qed

lemma word_consumed:
  "unquoted_word_text w \<Longrightarrow> w \<noteq> [] \<Longrightarrow> input \<noteq> [] \<Longrightarrow>
   tok_loop start (w @ input) tokens = tok_loop (Some (pending start @ w)) input tokens"
proof (induction w arbitrary: start rule: unquoted_word_text.induct)
  case 1
  then show ?case by simp
next
  case (2 ch)
  then show ?case by (simp add: delimiter_def)
next
  case (3 ch esc rest)
  show ?case
  proof (cases "ch = BACKSLASH")
    case True
    with 3 show ?thesis
      by (cases "rest = []") (auto simp: delimiter_def isspace_def)
  next
    case False
    with 3 show ?thesis
      by (auto simp: delimiter_def)
  qed
qed

lemma scan_quoted_clean:
  "DQUOTE \<notin> set q \<Longrightarrow> BACKSLASH \<notin> set q \<Longrightarrow>
   scan_quoted body (q @ DQUOTE # rest) = Inr (body @ q, DQUOTE # rest)"
  by (induction q arbitrary: body) auto

lemma tok_loop_quote:
  "tok_loop start (DQUOTE # input) tokens = quoted_from [] input (tokens @ flush start)"
  by (simp add: quoted_from_def split: sum.splits prod.splits list.splits)

lemma quoted_from_prepend:
  "quoted_from body input tokens = prepend tokens (quoted_from body input [])"
  by (simp add: quoted_from_def tok_loop_prepend[of None _ "_ @ _"] tok_loop_prepend[of None _ "[_]"]
      split: sum.splits prod.splits list.splits)

lemma scan_quoted_extends:
  "scan_quoted body input = Inr (body', rest) \<Longrightarrow> \<exists>v. body' = body @ v \<and> input = v @ rest"
proof (induction body input rule: scan_quoted.induct)
  case (1 body)
  then show ?case by simp
next
  case (2 body ch input)
  show ?case
  proof (cases "ch = DQUOTE")
    case True
    with 2 show ?thesis by simp
  next
    case False
    with "2.prems" have ne: "\<not> (ch = BACKSLASH \<and> \<not> isescape (peek input))"
      and r: "scan_quoted (body @ [ch]) input = Inr (body', rest)"
      by (auto split: if_splits)
    from "2.IH"[OF False ne r] obtain v where "body' = (body @ [ch]) @ v" "input = v @ rest"
      by blast
    then show ?thesis by (intro exI[of _ "ch # v"]) simp
  qed
qed

lemma isspace_BACKSLASH [simp]: "\<not> isspace BACKSLASH"
  by (simp add: isspace_def)

lemma scan_quoted_append:
  "scan_quoted body input = Inr (body', q # rest) \<Longrightarrow>
   scan_quoted body (input @ Y) = Inr (body', q # rest @ Y)"
proof (induction body input rule: scan_quoted.induct)
  case (1 body)
  then show ?case by simp
next
  case (2 body ch input)
  show ?case
  proof (cases "ch = DQUOTE")
    case True
    with 2 show ?thesis by simp
  next
    case False
    with "2.prems" have ne: "\<not> (ch = BACKSLASH \<and> \<not> isescape (peek input))"
      and r: "scan_quoted (body @ [ch]) input = Inr (body', q # rest)"
      by (auto split: if_splits)
    from r have "input \<noteq> []" by auto
    then have "peek (input @ Y) = peek input" by (cases input) auto
    then show ?thesis using False ne "2.IH"[OF False ne r] by simp
  qed
qed

lemma delimiter_simps:
  "delimiter d \<Longrightarrow> d \<noteq> DQUOTE \<and> d \<noteq> BACKSLASH \<and>
     (d = CHR ''<'' \<or> d = CHR ''>'' \<or> d = CHR ''|'' \<or> isspace d)"
  by (auto simp: delimiter_def isspace_def)

lemma tok_loop_delimiter:
  "delimiter d \<Longrightarrow>
   tok_loop start (d # X) tokens = tok_loop None X (tokens @ flush start @ operator d)"
  using delimiter_simps[of d] by (simp del: operator.simps)

lemma tok_loop_continue:
  "pre \<noteq> [] \<or> start = None \<Longrightarrow> tok_loop start pre tokens = Inr tp \<Longrightarrow>
   (delimiter d \<longrightarrow> tok_loop start (pre @ d # X) tokens = tok_loop None X (tp @ operator d)) \<and>
   (tp = [] \<or> TOK_type (last tp) \<noteq> TOK_WORD \<longrightarrow>
      tok_loop start (pre @ X) tokens = tok_loop None X tp)"
proof (induction "length pre" arbitrary: start pre tokens rule: less_induct)
  case less
  have ih: "\<And>start' pre' tokens'. length pre' < length pre \<Longrightarrow>
      pre' \<noteq> [] \<or> start' = None \<Longrightarrow> tok_loop start' pre' tokens' = Inr tp \<Longrightarrow>
      (delimiter d \<longrightarrow> tok_loop start' (pre' @ d # X) tokens' = tok_loop None X (tp @ operator d)) \<and>
      (tp = [] \<or> TOK_type (last tp) \<noteq> TOK_WORD \<longrightarrow>
         tok_loop start' (pre' @ X) tokens' = tok_loop None X tp)"
    using less.hyps by blast
  show ?case
  proof (cases pre)
    case Nil
    then have s: "start = None" and t: "tp = tokens" using less.prems by auto
    show ?thesis using Nil s t tok_loop_delimiter[of d None X tokens]
      by (simp del: tok_loop.simps operator.simps)
  next
    case (Cons ch rest)
    have len: "length rest < length pre" using Cons by simp
    show ?thesis
    proof (cases "ch = DQUOTE")
      case True
      from less.prems(2) Cons True obtain body q input'' where
        sc: "scan_quoted [] rest = Inr (body, q # input'')" and
        tl: "tok_loop None input'' (tokens @ flush start @ [QuotedWord (DQUOTE # body @ [q])]) = Inr tp"
        by (auto split: sum.splits prod.splits list.splits)
      from scan_quoted_extends[OF sc] have rest: "rest = body @ q # input''" by auto
      then have len': "length input'' < length pre" using Cons by simp
      have step: "tok_loop start (pre @ Y) tokens
          = tok_loop None (input'' @ Y) (tokens @ flush start @ [QuotedWord (DQUOTE # body @ [q])])"
        for Y
        using Cons True scan_quoted_append[OF sc, of Y] by simp
      show ?thesis using ih[OF len' _ tl] step[of "d # X"] step[of X]
        by (simp del: tok_loop.simps operator.simps)
    next
      case nq: False
      show ?thesis
      proof (cases "ch = CHR ''<'' \<or> ch = CHR ''>'' \<or> ch = CHR ''|'' \<or> isspace ch")
        case True
        from less.prems(2) Cons nq True have
          tl: "tok_loop None rest (tokens @ flush start @ operator ch) = Inr tp"
          by (simp del: operator.simps)
        have step: "tok_loop start (pre @ Y) tokens
            = tok_loop None (rest @ Y) (tokens @ flush start @ operator ch)" for Y
          using Cons nq True by (simp del: operator.simps)
        show ?thesis using ih[OF len _ tl] step[of "d # X"] step[of X]
          by (simp del: tok_loop.simps operator.simps)
      next
        case nd: False
        show ?thesis
        proof (cases "ch = BACKSLASH")
          case True
          from less.prems(2) Cons nq nd True obtain esc rest' where
            r: "rest = esc # rest'" and e: "isescape esc"
            by (cases rest) (auto split: if_splits)
          have len': "length rest' < length pre" using Cons r by simp
          show ?thesis
          proof (cases "rest' = []")
            case e1: True
            then have tp: "tp = tokens @ [Word (pending start @ [ch, esc])]"
              using less.prems(2) Cons nq nd True r e by simp
            have "tok_loop start (pre @ d # X) tokens
                    = tok_loop (Some (pending start @ [ch, esc])) (d # X) tokens"
              using Cons nq nd True r e e1 by simp
            then have "delimiter d \<Longrightarrow>
                tok_loop start (pre @ d # X) tokens = tok_loop None X (tp @ operator d)"
              using tok_loop_delimiter[of d "Some (pending start @ [ch, esc])" X tokens] tp
              by (simp del: tok_loop.simps operator.simps)
            then show ?thesis using tp by (simp del: tok_loop.simps operator.simps)
          next
            case False
            then have tl: "tok_loop (Some (pending start @ [ch, esc])) rest' tokens = Inr tp"
              using less.prems(2) Cons nq nd True r e by simp
            have step: "tok_loop start (pre @ Y) tokens
                = tok_loop (Some (pending start @ [ch, esc])) (rest' @ Y) tokens" for Y
              using Cons nq nd True r e False by simp
            show ?thesis using ih[OF len' _ tl] False step[of "d # X"] step[of X]
              by (simp del: tok_loop.simps operator.simps)
          qed
        next
          case nb: False
          show ?thesis
          proof (cases "rest = []")
            case e1: True
            then have tp: "tp = tokens @ [Word (pending start @ [ch])]"
              using less.prems(2) Cons nq nd nb by simp
            have "tok_loop start (pre @ d # X) tokens
                    = tok_loop (Some (pending start @ [ch])) (d # X) tokens"
              using Cons nq nd nb e1 by simp
            then have "delimiter d \<Longrightarrow>
                tok_loop start (pre @ d # X) tokens = tok_loop None X (tp @ operator d)"
              using tok_loop_delimiter[of d "Some (pending start @ [ch])" X tokens] tp
              by (simp del: tok_loop.simps operator.simps)
            then show ?thesis using tp by (simp del: tok_loop.simps operator.simps)
          next
            case False
            then have tl: "tok_loop (Some (pending start @ [ch])) rest tokens = Inr tp"
              using less.prems(2) Cons nq nd nb by simp
            have step: "tok_loop start (pre @ Y) tokens
                = tok_loop (Some (pending start @ [ch])) (rest @ Y) tokens" for Y
              using Cons nq nd nb False by simp
            show ?thesis using ih[OF len _ tl] False step[of "d # X"] step[of X]
              by (simp del: tok_loop.simps operator.simps)
          qed
        qed
      qed
    qed
  qed
qed

lemma word_then_quote:
  assumes "unquoted_word_text w" and "w \<noteq> []"
  shows "tok_loop None (w @ DQUOTE # input) []
           = prepend [Word w] (TOK_tokenize_input (DQUOTE # input))"
proof -
  have "tok_loop None (w @ DQUOTE # input) [] = tok_loop (Some w) (DQUOTE # input) []"
    using word_consumed[OF assms, of "DQUOTE # input" None "[]"] by (simp del: tok_loop.simps)
  also have "\<dots> = quoted_from [] input [Word w]"
    by (simp add: tok_loop_quote del: tok_loop.simps)
  also have "\<dots> = prepend [Word w] (quoted_from [] input [])"
    by (rule quoted_from_prepend)
  finally show ?thesis by (simp add: TOK_tokenize_input_def tok_loop_quote del: tok_loop.simps)
qed

lemma quoted_word_closed:
  assumes "DQUOTE \<notin> set q" and "BACKSLASH \<notin> set q"
  shows "TOK_tokenize_input (DQUOTE # q @ DQUOTE # rest)
           = prepend [QuotedWord (DQUOTE # q @ [DQUOTE])] (TOK_tokenize_input rest)"
  using scan_quoted_clean[OF assms, of "[]" rest]
    tok_loop_prepend[of None rest "[QuotedWord (DQUOTE # q @ [DQUOTE])]"]
  by (simp add: TOK_tokenize_input_def tok_loop_quote quoted_from_def del: tok_loop.simps)

text \<open>
  Claim C10.  A double quote that comes right after the characters of an unquoted
  word in progress ends the word, wherever on the line the word stands: in every state
  of the loop with a word in progress, the quote branch appends the \<open>Word\<close> to the
  tokens so far and then scans the quoted word.  For whole lines, let the input before
  the word tokenize to \<open>tp\<close> on its own.  When the word \<open>w\<close> follows
  a token that is not a \<open>Word\<close> (or nothing at all, at the start of the line), or
  follows a delimiter \<open>d\<close>, the tokens of the line are \<open>tp\<close>, the operator of the
  delimiter if it is one, the \<open>Word\<close> \<open>w\<close>, and then the tokens of \<open>"...\<close> alone;
  when the quoted stretch \<open>q\<close> closes, they are \<open>tp\<close>, the \<open>Word\<close>, the
  \<open>QuotedWord\<close> with its two quotes, and the tokens of the rest.  The input
  \<open>wc"-l"\<close> gives the \<open>Word\<close> \<open>wc\<close> and the \<open>QuotedWord\<close> \<open>"-l"\<close>, also after
  \<open>seq 10 |\<close> and a space.
\<close>

theorem quote_ends_unquoted_word:
  assumes "unquoted_word_text w" and "w \<noteq> []" and "TOK_tokenize_input pre = Inr tp"
  shows "tok_loop (Some pending_word) (DQUOTE # input) tokens
           = prepend (tokens @ [Word pending_word]) (TOK_tokenize_input (DQUOTE # input))
       \<and> (tp = [] \<or> TOK_type (last tp) \<noteq> TOK_WORD \<longrightarrow>
            TOK_tokenize_input (pre @ w @ DQUOTE # input)
              = prepend (tp @ [Word w]) (TOK_tokenize_input (DQUOTE # input)))
       \<and> (delimiter d \<longrightarrow>
            TOK_tokenize_input (pre @ d # w @ DQUOTE # input)
              = prepend (tp @ operator d @ [Word w]) (TOK_tokenize_input (DQUOTE # input)))
       \<and> (DQUOTE \<notin> set q \<and> BACKSLASH \<notin> set q \<and> (tp = [] \<or> TOK_type (last tp) \<noteq> TOK_WORD) \<longrightarrow>
            TOK_tokenize_input (pre @ w @ DQUOTE # q @ DQUOTE # rest)
              = prepend (tp @ [Word w, QuotedWord (DQUOTE # q @ [DQUOTE])]) (TOK_tokenize_input rest))
       \<and> (DQUOTE \<notin> set q \<and> BACKSLASH \<notin> set q \<and> delimiter d \<longrightarrow>
            TOK_tokenize_input (pre @ d # w @ DQUOTE # q @ DQUOTE # rest)
              = prepend (tp @ operator d @ [Word w, QuotedWord (DQUOTE # q @ [DQUOTE])])
                  (TOK_tokenize_input rest))"
proof -
  have pre: "tok_loop None pre [] = Inr tp" using assms(3) by (simp add: TOK_tokenize_input_def)
  have after_token: "TOK_tokenize_input (pre @ w @ DQUOTE # input)
          = prepend (tp @ [Word w]) (TOK_tokenize_input (DQUOTE # input))"
    if "tp = [] \<or> TOK_type (last tp) \<noteq> TOK_WORD" for input
  proof -
    have "tok_loop None (pre @ w @ DQUOTE # input) [] = tok_loop None (w @ DQUOTE # input) tp"
      using tok_loop_continue[OF _ pre, of d "w @ DQUOTE # input"] that by blast
    also have "\<dots> = prepend tp (tok_loop None (w @ DQUOTE # input) [])"
      by (rule tok_loop_prepend)
    finally show ?thesis
      by (simp add: word_then_quote[OF assms(1,2)] TOK_tokenize_input_def[of "pre @ _"]
            del: tok_loop.simps)
  qed
  have after_delimiter: "TOK_tokenize_input (pre @ d # w @ DQUOTE # input)
          = prepend (tp @ operator d @ [Word w]) (TOK_tokenize_input (DQUOTE # input))"
    if "delimiter d" for input
  proof -
    have "tok_loop None (pre @ d # w @ DQUOTE # input) []
            = tok_loop None (w @ DQUOTE # input) (tp @ operator d)"
      using tok_loop_continue[OF _ pre, of d "w @ DQUOTE # input"] that by blast
    also have "\<dots> = prepend (tp @ operator d) (tok_loop None (w @ DQUOTE # input) [])"
      by (rule tok_loop_prepend)
    finally show ?thesis
      by (simp add: word_then_quote[OF assms(1,2)] TOK_tokenize_input_def[of "pre @ _"]
            del: tok_loop.simps operator.simps)
  qed
  have in_the_loop: "tok_loop (Some pending_word) (DQUOTE # input) tokens
           = prepend (tokens @ [Word pending_word]) (TOK_tokenize_input (DQUOTE # input))"
    using quoted_from_prepend[of "[]" input "tokens @ [Word pending_word]"]
    by (simp add: tok_loop_quote TOK_tokenize_input_def del: tok_loop.simps)
  show ?thesis
    using in_the_loop after_token[of input] after_delimiter[of input]
      after_token[of "q @ DQUOTE # rest"] after_delimiter[of "q @ DQUOTE # rest"]
      quoted_word_closed[of q rest]
    by (simp del: operator.simps tok_loop.simps)
qed

theorem quote_ends_unquoted_word_witness:
  "unquoted_word_text ''wc'' \<and> ''wc'' \<noteq> []
   \<and> DQUOTE \<notin> set ''-l'' \<and> BACKSLASH \<notin> set ''-l''
   \<and> TOK_tokenize_input [] = Inr [] \<and> ([] :: Token list) = []
   \<and> TOK_tokenize_input ([] @ ''wc'' @ DQUOTE # ''-l'' @ DQUOTE # [])
       = Inr [Word ''wc'', QuotedWord (DQUOTE # ''-l'' @ [DQUOTE])]
   \<and> TOK_tokenize_input ''seq 10 |'' = Inr [Word ''seq'', Word ''10'', Pipe]
   \<and> delimiter (CHR '' '')
   \<and> TOK_tokenize_input (''seq 10 |'' @ CHR '' '' # ''wc'' @ DQUOTE # ''-l'' @ DQUOTE # [])
       = Inr [Word ''seq'', Word ''10'', Pipe, Word ''wc'', QuotedWord (DQUOTE # ''-l'' @ [DQUOTE])]
   \<and> TOK_tokenize_input (DQUOTE # ''a'' @ [DQUOTE]) = Inr [QuotedWord (DQUOTE # ''a'' @ [DQUOTE])]
   \<and> TOK_type (last [QuotedWord (DQUOTE # ''a'' @ [DQUOTE])]) \<noteq> TOK_WORD
   \<and> TOK_tokenize_input ((DQUOTE # ''a'' @ [DQUOTE]) @ ''wc'' @ DQUOTE # ''-l'' @ DQUOTE # [])
       = Inr [QuotedWord (DQUOTE # ''a'' @ [DQUOTE]), Word ''wc'',
              QuotedWord (DQUOTE # ''-l'' @ [DQUOTE])]"
proof -
  have a: "unquoted_word_text ''wc''" by (simp add: delimiter_def isspace_def)
  have b: "''wc'' \<noteq> []" by simp
  have c: "DQUOTE \<notin> set ''-l'' \<and> BACKSLASH \<notin> set ''-l''" by simp
  have e: "TOK_tokenize_input [] = Inr []" by (simp add: TOK_tokenize_input_def)
  have p: "TOK_tokenize_input ''seq 10 |'' = Inr [Word ''seq'', Word ''10'', Pipe]"
    by (simp add: TOK_tokenize_input_def isspace_def)
  have d: "delimiter (CHR '' '')" by (simp add: delimiter_def isspace_def)
  have o: "operator (CHR '' '') = []" by simp
  have k: "TOK_tokenize_input (DQUOTE # ''a'' @ [DQUOTE]) = Inr [QuotedWord (DQUOTE # ''a'' @ [DQUOTE])]"
    by (simp add: TOK_tokenize_input_def)
  have l: "TOK_type (last [QuotedWord (DQUOTE # ''a'' @ [DQUOTE])]) \<noteq> TOK_WORD" by simp
  have f: "TOK_tokenize_input ([] @ ''wc'' @ DQUOTE # ''-l'' @ DQUOTE # [])
       = Inr [Word ''wc'', QuotedWord (DQUOTE # ''-l'' @ [DQUOTE])]"
    using quote_ends_unquoted_word[OF a b e, of _ "[]" _ "CHR '' ''" "''-l''" "[]"] c e
    by (simp del: operator.simps)
  have g: "TOK_tokenize_input (''seq 10 |'' @ CHR '' '' # ''wc'' @ DQUOTE # ''-l'' @ DQUOTE # [])
       = Inr [Word ''seq'', Word ''10'', Pipe, Word ''wc'', QuotedWord (DQUOTE # ''-l'' @ [DQUOTE])]"
    using quote_ends_unquoted_word[OF a b p, of _ "[]" _ "CHR '' ''" "''-l''" "[]"] c d e o
    by (simp del: operator.simps)
  have h: "TOK_tokenize_input ((DQUOTE # ''a'' @ [DQUOTE]) @ ''wc'' @ DQUOTE # ''-l'' @ DQUOTE # [])
       = Inr [QuotedWord (DQUOTE # ''a'' @ [DQUOTE]), Word ''wc'',
              QuotedWord (DQUOTE # ''-l'' @ [DQUOTE])]"
    using quote_ends_unquoted_word[OF a b k, of _ "[]" _ "CHR '' ''" "''-l''" "[]"] c e l
    by (simp del: operator.simps)
  show ?thesis using a b c d e f g h k l p by simp
qed

lemma verbatim_Nil: "verbatim [] []"
  unfolding verbatim_def by (rule exI[of _ "[[]]"]) simp

lemma weave_Cons_sep: "weave ((c # sep) # seps) texts = c # weave (sep # seps) texts"
  by (cases texts) auto

lemma verbatim_space: "isspace c \<Longrightarrow> verbatim s ts \<Longrightarrow> verbatim (c # s) ts"
proof -
  assume c: "isspace c" and "verbatim s ts"
  then obtain seps where l: "length seps = Suc (length ts)"
    and w: "list_all (list_all isspace) seps" and s: "s = weave seps (map TOK_text ts)"
    unfolding verbatim_def by blast
  from l obtain sep seps' where seps: "seps = sep # seps'" by (cases seps) auto
  show ?thesis
    unfolding verbatim_def
    by (rule exI[of _ "(c # sep) # seps'"]) (use l w s seps c in \<open>simp add: weave_Cons_sep\<close>)
qed

lemma verbatim_token: "verbatim s ts \<Longrightarrow> verbatim (TOK_text t @ s) (t # ts)"
proof -
  assume "verbatim s ts"
  then obtain seps where l: "length seps = Suc (length ts)"
    and w: "list_all (list_all isspace) seps" and s: "s = weave seps (map TOK_text ts)"
    unfolding verbatim_def by blast
  show ?thesis
    unfolding verbatim_def
    by (rule exI[of _ "[] # seps"]) (use l w s in simp)
qed

lemma prepend_Inr: "prepend T r = Inr ts \<Longrightarrow> \<exists>ts'. r = Inr ts' \<and> ts = T @ ts'"
  by (cases r) auto

lemma tok_loop_split:
  "tok_loop start input T = Inr ts \<Longrightarrow> \<exists>ts'. tok_loop start input [] = Inr ts' \<and> ts = T @ ts'"
  using tok_loop_prepend[of start input T] prepend_Inr by metis

lemma tok_loop_verbatim:
  "start = None \<or> input \<noteq> [] \<Longrightarrow> tok_loop start input [] = Inr ts \<Longrightarrow>
   verbatim (pending start @ input) ts"
proof (induction "length input" arbitrary: start input ts rule: less_induct)
  case less
  have ih: "\<And>start' input' ts'. length input' < length input \<Longrightarrow>
      start' = None \<or> input' \<noteq> [] \<Longrightarrow> tok_loop start' input' [] = Inr ts' \<Longrightarrow>
      verbatim (pending start' @ input') ts'"
    using less.hyps by blast
  show ?case
  proof (cases input)
    case Nil
    with less.prems show ?thesis by (auto simp: verbatim_Nil)
  next
    case (Cons ch rest)
    have len: "length rest < length input" using Cons by simp
    have flushed: "verbatim (pending start @ s) (flush start @ us)" if "verbatim s us" for s us
      using that verbatim_token[of s us "Word (pending start)"] by (cases start) auto
    show ?thesis
    proof (cases "ch = DQUOTE")
      case True
      from less.prems(2) Cons True obtain body q input'' where
        sc: "scan_quoted [] rest = Inr (body, q # input'')" and
        tl: "tok_loop None input'' (flush start @ [QuotedWord (DQUOTE # body @ [q])]) = Inr ts"
        by (auto split: sum.splits prod.splits list.splits)
      from scan_quoted_extends[OF sc] have rest: "rest = body @ q # input''" by auto
      then have len': "length input'' < length input" using Cons by simp
      from tok_loop_split[OF tl] obtain ts' where
        t': "tok_loop None input'' [] = Inr ts'" and
        ts: "ts = (flush start @ [QuotedWord (DQUOTE # body @ [q])]) @ ts'" by blast
      have "verbatim input'' ts'" using ih[OF len' _ t'] by simp
      then have "verbatim (TOK_text (QuotedWord (DQUOTE # body @ [q])) @ input'')
                   (QuotedWord (DQUOTE # body @ [q]) # ts')"
        by (rule verbatim_token)
      then have "verbatim (pending start @ DQUOTE # body @ q # input'')
                   (flush start @ QuotedWord (DQUOTE # body @ [q]) # ts')"
        using flushed by simp
      then show ?thesis using Cons True rest ts by simp
    next
      case nq: False
      show ?thesis
      proof (cases "ch = CHR ''<'' \<or> ch = CHR ''>'' \<or> ch = CHR ''|'' \<or> isspace ch")
        case True
        from less.prems(2) Cons nq True have
          tl: "tok_loop None rest (flush start @ operator ch) = Inr ts"
          by (simp del: operator.simps)
        from tok_loop_split[OF tl] obtain ts' where
          t': "tok_loop None rest [] = Inr ts'" and
          ts: "ts = (flush start @ operator ch) @ ts'" by blast
        have v: "verbatim rest ts'" using ih[OF len _ t'] by simp
        have "verbatim (ch # rest) (operator ch @ ts')"
        proof (cases "ch = CHR ''<'' \<or> ch = CHR ''>'' \<or> ch = CHR ''|''")
          case True
          then show ?thesis
            using verbatim_token[OF v, of LessThan] verbatim_token[OF v, of GreaterThan]
              verbatim_token[OF v, of Pipe] by auto
        next
          case False
          then have "isspace ch" using True by blast
          then show ?thesis using False verbatim_space[OF _ v] by simp
        qed
        then have "verbatim (pending start @ ch # rest) (flush start @ operator ch @ ts')"
          by (rule flushed)
        then show ?thesis using Cons ts by simp
      next
        case nd: False
        show ?thesis
        proof (cases "ch = BACKSLASH")
          case True
          from less.prems(2) Cons nq nd True obtain esc rest' where
            r: "rest = esc # rest'" and e: "isescape esc"
            by (cases rest) (auto split: if_splits)
          have len': "length rest' < length input" using Cons r by simp
          show ?thesis
          proof (cases "rest' = []")
            case True
            then have "ts = [Word (pending start @ [ch, esc])]"
              using less.prems(2) Cons nq nd \<open>ch = BACKSLASH\<close> r e by simp
            then show ?thesis
              using verbatim_token[OF verbatim_Nil, of "Word (pending start @ [ch, esc])"]
                Cons r True by simp
          next
            case False
            then have "tok_loop (Some (pending start @ [ch, esc])) rest' [] = Inr ts"
              using less.prems(2) Cons nq nd \<open>ch = BACKSLASH\<close> r e by simp
            from ih[OF len' _ this] False show ?thesis using Cons r by simp
          qed
        next
          case nb: False
          show ?thesis
          proof (cases "rest = []")
            case True
            then have "ts = [Word (pending start @ [ch])]"
              using less.prems(2) Cons nq nd nb by simp
            then show ?thesis
              using verbatim_token[OF verbatim_Nil, of "Word (pending start @ [ch])"]
                Cons True by simp
          next
            case False
            then have "tok_loop (Some (pending start @ [ch])) rest [] = Inr ts"
              using less.prems(2) Cons nq nd nb by simp
            from ih[OF len _ this] False show ?thesis using Cons by simp
          qed
        qed
      qed
    qed
  qed
qed















text \<open>
  Inside a quoted word the scan does not step over the character after a backslash it
  accepted: a second backslash is examined as an escape of its own, and a double quote
  after a backslash ends the quoted word.
\<close>

lemma quoted_escaped_character_examined:
  "TOK_tokenize_input ([DQUOTE] @ ''a'' @ [BACKSLASH, BACKSLASH] @ ''b'' @ [DQUOTE])
     = Inl ''Illegal escape character b''
   \<and> TOK_tokenize_input ([DQUOTE] @ ''a'' @ [BACKSLASH, DQUOTE] @ ''b'' @ [DQUOTE])
     = Inl ''Unterminated quote''
   \<and> TOK_tokenize_input ([DQUOTE] @ ''a'' @ [BACKSLASH, DQUOTE] @ ''b'')
     = Inr [QuotedWord ([DQUOTE] @ ''a'' @ [BACKSLASH, DQUOTE]), Word ''b'']"
  by (simp add: TOK_tokenize_input_def isescape_def isspace_def illegal_escape_def)
section \<open>Properties of the parser\<close>

lemma count_type_append: "count_type t (AST_append p x) = count_type t p + count_type t x"
  by (induction p x rule: AST_append.induct) auto

lemma append_words_fold:
  "append_words p paths = Some (foldl (\<lambda>a path. AST_append a (Node WORD (Some path) Null Null)) p paths)"
  by (induction paths arbitrary: p) (auto simp: AST_word_def)

lemma count_type_words:
  "t \<noteq> WORD \<Longrightarrow>
   count_type t (foldl (\<lambda>a path. AST_append a (Node WORD (Some path) Null Null)) p paths) = count_type t p"
  by (induction paths arbitrary: p) (auto simp: count_type_append)

lemma glob_append_count:
  "glob_append glob p v = Inr p' \<Longrightarrow> t \<noteq> WORD \<Longrightarrow> count_type t p' = count_type t p"
  by (auto simp: glob_append_def append_words_fold count_type_words split: option.splits)

lemma Parse_redirect_counted:
  assumes "Parse_redirect glob st tt tokens = Inr (st', tokens')" and "redirects_counted st"
    and "tt = TOK_LESSTHAN \<or> tt = TOK_GREATERTHAN"
  shows "redirects_counted st'"
  using assms unfolding Parse_redirect_def Let_def redirects_counted_def
  by (auto simp: count_type_append AST_redirect_def dest: glob_append_count
      split: if_splits list.splits Token.splits sum.splits option.splits AST.splits)

lemma Parse_pipe_counted:
  assumes "Parse_pipe glob st tokens = Inr (st', tokens')" and "redirects_counted st"
  shows "redirects_counted st'"
  using assms unfolding Parse_pipe_def Let_def redirects_counted_def
  by (auto simp: count_type_append AST_pipe_def AST_word_def dest: glob_append_count
      split: if_splits list.splits Token.splits sum.splits option.splits AST.splits)

lemma Parse_body_counted:
  assumes "Parse_body glob st token tokens = Inr (st', tokens')" and "redirects_counted st"
  shows "redirects_counted st'"
proof (cases token)
  case (Word v)
  with assms show ?thesis
    by (auto simp: redirects_counted_def dest: glob_append_count split: sum.splits)
next
  case (QuotedWord v)
  with assms show ?thesis
    by (auto simp: redirects_counted_def AST_word_def count_type_append)
next
  case LessThan
  with assms show ?thesis by (auto dest: Parse_redirect_counted)
next
  case GreaterThan
  with assms show ?thesis by (auto dest: Parse_redirect_counted)
next
  case Pipe
  with assms show ?thesis by (auto dest: Parse_pipe_counted)
qed

lemma Parse_loop_counted:
  "Parse_loop glob st tokens = Inr st' \<Longrightarrow> redirects_counted st \<Longrightarrow> redirects_counted st'"
proof (induction glob st tokens rule: Parse_loop.induct)
  case (1 glob st)
  then show ?case by simp
next
  case (2 glob st token tokens)
  then show ?case
    by (auto split: sum.splits dest: Parse_body_counted)
qed

text \<open>
  Claim C6.  Whenever \<open>Parse\<close> succeeds, the tree it returns holds at most one
  input-redirect node and at most one output-redirect node, counted over the whole
  tree; this holds for every behaviour of \<open>glob\<close>.
\<close>

theorem Parse_at_most_one_redirect_each:
  "Parse glob tokens = Inr ast \<Longrightarrow>
   count_type OP_LESSTHAN ast \<le> 1 \<and> count_type OP_GREATERTHAN ast \<le> 1"
proof -
  assume a: "Parse glob tokens = Inr ast"
  then obtain st where st: "Parse_loop glob Parse_init tokens = Inr st" and ast: "ast = ret st"
    by (auto simp: Parse_def split: sum.splits)
  have "redirects_counted Parse_init" by (simp add: redirects_counted_def Parse_init_def)
  with st have "redirects_counted st" by (rule Parse_loop_counted)
  with ast show ?thesis by (simp add: redirects_counted_def)
qed

theorem Parse_at_most_one_redirect_each_witness:
  "Parse glob_literal [Word ''sed'', LessThan, Word ''in'', GreaterThan, Word ''out'']
     = Inr (Node WORD (Some ''sed'') Null
             (Node OP_LESSTHAN None Null
               (Node WORD (Some ''in'') Null
                 (Node OP_GREATERTHAN None Null (Node WORD (Some ''out'') Null Null)))))
   \<and> count_type OP_LESSTHAN (Node WORD (Some ''sed'') Null
             (Node OP_LESSTHAN None Null
               (Node WORD (Some ''in'') Null
                 (Node OP_GREATERTHAN None Null (Node WORD (Some ''out'') Null Null))))) \<le> 1
   \<and> count_type OP_GREATERTHAN (Node WORD (Some ''sed'') Null
             (Node OP_LESSTHAN None Null
               (Node WORD (Some ''in'') Null
                 (Node OP_GREATERTHAN None Null (Node WORD (Some ''out'') Null Null))))) \<le> 1"
proof -
  have a: "Parse glob_literal [Word ''sed'', LessThan, Word ''in'', GreaterThan, Word ''out'']
     = Inr (Node WORD (Some ''sed'') Null
             (Node OP_LESSTHAN None Null
               (Node WORD (Some ''in'') Null
                 (Node OP_GREATERTHAN None Null (Node WORD (Some ''out'') Null Null)))))"
    by (simp add: Parse_def Parse_init_def Parse_redirect_def glob_append_def AST_word_def
          AST_redirect_def glob_literal_def)
  show ?thesis using a Parse_at_most_one_redirect_each[OF a] by simp
qed

lemma AST_append_Null_left [simp]: "AST_append Null x = x"
  by (cases x) auto

lemma AST_append_assoc: "AST_append (AST_append p x) y = AST_append p (AST_append x y)"
proof (induction p)
  case Null
  then show ?case by simp
next
  case (Node t v l r)
  show ?case
  proof (cases x)
    case Null
    then show ?thesis by simp
  next
    case nx: (Node t' v' l' r')
    show ?thesis
    proof (cases y)
      case Null
      then show ?thesis by simp
    next
      case ny: (Node t'' v'' l'' r'')
      have "AST_append x y \<noteq> Null" using nx ny by simp
      then obtain a b c d where e: "AST_append x y = Node a b c d" by (cases "AST_append x y") auto
      show ?thesis using Node.IH(2) nx ny e by (simp del: AST_append.simps(3)) (simp add: e[symmetric])
    qed
  qed
qed

lemma words_fold_chain:
  "foldl (\<lambda>a path. AST_append a (Node WORD (Some path) Null Null)) p paths
     = AST_append p (word_chain paths)"
proof (induction paths arbitrary: p)
  case Nil
  then show ?case by simp
next
  case (Cons path paths)
  have "AST_append (Node WORD (Some path) Null Null) (word_chain paths)
          = Node WORD (Some path) Null (word_chain paths)"
    by (cases "word_chain paths") auto
  then show ?case by (simp add: Cons.IH AST_append_assoc del: AST_append.simps)
qed

lemma glob_append_chain:
  "glob_append glob p v =
     (case glob v of None \<Rightarrow> Inl (ParseError ''Glob encountered an error'')
      | Some paths \<Rightarrow> Inr (AST_append p (word_chain paths)))"
  by (simp add: glob_append_def append_words_fold words_fold_chain split: option.splits)

lemma Parse_redirect_append:
  "Parse_redirect glob st tt tokens = Inr (st', tokens') \<Longrightarrow>
   Parse_redirect glob st tt (tokens @ rest) = Inr (st', tokens' @ rest)"
  unfolding Parse_redirect_def Let_def
  by (auto split: if_splits list.splits Token.splits sum.splits option.splits)

lemma Parse_pipe_append:
  "Parse_pipe glob st tokens = Inr (st', tokens') \<Longrightarrow>
   Parse_pipe glob st (tokens @ rest) = Inr (st', tokens' @ rest)"
  unfolding Parse_pipe_def Let_def
  by (auto split: if_splits list.splits Token.splits sum.splits option.splits)

lemma Parse_body_append:
  "Parse_body glob st token tokens = Inr (st', tokens') \<Longrightarrow>
   Parse_body glob st token (tokens @ rest) = Inr (st', tokens' @ rest)"
  by (cases token)
     (auto dest: Parse_redirect_append Parse_pipe_append split: sum.splits option.splits)

lemma Parse_loop_prefix:
  "Parse_loop glob st pre = Inr st' \<Longrightarrow>
   Parse_loop glob st (pre @ rest) = Parse_loop glob st' rest"
proof (induction glob st pre rule: Parse_loop.induct)
  case (1 glob st)
  then show ?case by simp
next
  case (2 glob st token tokens)
  from "2.prems" obtain st1 tokens1 where
    b: "Parse_body glob st token tokens = Inr (st1, tokens1)" and
    l: "Parse_loop glob st1 tokens1 = Inr st'"
    by (auto split: sum.splits)
  from b have "Parse_body glob st token (tokens @ rest) = Inr (st1, tokens1 @ rest)"
    by (rule Parse_body_append)
  moreover have "Parse_loop glob st1 (tokens1 @ rest) = Parse_loop glob st' rest"
    using "2.IH" b l by simp
  ultimately show ?case by simp
qed

lemma AST_append_type:
  "AST_type (AST_append p x) = (case p of Null \<Rightarrow> AST_type x | Node t v l r \<Rightarrow> Some t)"
  by (cases p; cases x) auto

lemma Parse_body_command_first:
  assumes "Parse_body glob st token tokens = Inr (st', tokens')" and "command_first st"
  shows "command_first st'"
proof (cases token)
  case (Word v)
  with assms show ?thesis
    by (cases "ret st"; cases "the (glob v)")
       (auto simp: command_first_def glob_append_chain split: option.splits AST.splits)
next
  case (QuotedWord v)
  with assms show ?thesis
    by (cases "ret st") (auto simp: command_first_def AST_word_def split: AST.splits)
next
  case LessThan
  with assms show ?thesis
    unfolding command_first_def
    by (cases "ret st")
       (auto simp: Parse_redirect_def Let_def AST_redirect_def glob_append_chain
             split: if_splits list.splits Token.splits option.splits AST.splits)
next
  case GreaterThan
  with assms show ?thesis
    unfolding command_first_def
    by (cases "ret st")
       (auto simp: Parse_redirect_def Let_def AST_redirect_def glob_append_chain
             split: if_splits list.splits Token.splits option.splits AST.splits)
next
  case Pipe
  with assms show ?thesis
    unfolding command_first_def
    by (auto simp: Parse_pipe_def Let_def AST_pipe_def AST_word_def glob_append_chain
             split: if_splits list.splits Token.splits option.splits AST.splits)
qed

lemma Parse_loop_command_first:
  "Parse_loop glob st tokens = Inr st' \<Longrightarrow> command_first st \<Longrightarrow> command_first st'"
proof (induction glob st tokens rule: Parse_loop.induct)
  case (1 glob st)
  then show ?case by simp
next
  case (2 glob st token tokens)
  then show ?case
    by (auto split: sum.splits dest: Parse_body_command_first)
qed

lemma Parse_body_seen:
  assumes "Parse_body glob st token tokens = Inr (st', tokens')"
  shows "seen d st \<le> seen d st'"
    and "token = d \<Longrightarrow> d = LessThan \<or> d = GreaterThan \<Longrightarrow> 1 \<le> seen d st'"
    and "d = LessThan \<or> d = GreaterThan \<Longrightarrow> d \<in> set tokens \<Longrightarrow> d \<in> set tokens'"
  using assms
  by (cases token; cases d;
      auto simp: Parse_redirect_def Parse_pipe_def Let_def
           split: if_splits list.splits Token.splits option.splits sum.splits)+

lemma Parse_loop_seen:
  "Parse_loop glob st tokens = Inr st' \<Longrightarrow> d = LessThan \<or> d = GreaterThan \<Longrightarrow>
   seen d st \<le> seen d st' \<and> (d \<in> set tokens \<longrightarrow> 1 \<le> seen d st')"
proof (induction glob st tokens rule: Parse_loop.induct)
  case (1 glob st)
  then show ?case by simp
next
  case (2 glob st token tokens)
  from "2.prems" obtain st1 tokens1 where
    b: "Parse_body glob st token tokens = Inr (st1, tokens1)" and
    l: "Parse_loop glob st1 tokens1 = Inr st'"
    by (auto split: sum.splits)
  have ih: "seen d st1 \<le> seen d st'" "d \<in> set tokens1 \<Longrightarrow> 1 \<le> seen d st'"
    using "2.IH"[OF b refl l "2.prems"(2)] by auto
  have m: "seen d st \<le> seen d st1" using Parse_body_seen(1)[OF b] .
  show ?case
  proof (intro conjI impI)
    show "seen d st \<le> seen d st'" using m ih(1) by simp
    assume "d \<in> set (token # tokens)"
    then consider "token = d" | "d \<in> set tokens" by auto
    then show "1 \<le> seen d st'"
    proof cases
      case 1
      then have "1 \<le> seen d st1" using Parse_body_seen(2)[OF b] "2.prems"(2) by simp
      then show ?thesis using ih(1) by simp
    next
      case 2
      then have "d \<in> set tokens1" using Parse_body_seen(3)[OF b] "2.prems"(2) by simp
      then show ?thesis using ih(2) by simp
    qed
  qed
qed

lemma Parse_reaches:
  assumes "Parse glob pre = Inr ast"
  shows "\<exists>st. Parse_loop glob Parse_init pre = Inr st \<and> ret st = ast \<and>
          command_first st \<and> redirects_counted st \<and>
          (\<forall>rest. Parse glob (pre @ rest) =
            (case Parse_loop glob st rest of Inl err \<Rightarrow> Inl err | Inr st' \<Rightarrow> Inr (ret st')))"
proof -
  from assms obtain st where st: "Parse_loop glob Parse_init pre = Inr st" and ast: "ret st = ast"
    by (auto simp: Parse_def split: sum.splits)
  have "command_first Parse_init" by (simp add: command_first_def Parse_init_def)
  with st have c: "command_first st" by (rule Parse_loop_command_first)
  have "redirects_counted Parse_init" by (simp add: redirects_counted_def Parse_init_def)
  with st have r: "redirects_counted st" by (rule Parse_loop_counted)
  have "\<forall>rest. Parse glob (pre @ rest) =
            (case Parse_loop glob st rest of Inl err \<Rightarrow> Inl err | Inr st' \<Rightarrow> Inr (ret st'))"
    by (simp add: Parse_def Parse_loop_prefix[OF st])
  with st ast c r show ?thesis by blast
qed

lemma Parse_redirect_seen:
  assumes "command_first st" and "1 \<le> seen d st" and "is_redirect_token d"
  shows "Parse_body glob st d rest = Inl (ParseError ''Multiple redirection'')"
  using assms
  by (cases "ret st")
     (auto simp: is_redirect_token_def command_first_def Parse_redirect_def Let_def)

text \<open>
  Claim C3, as amended.  When the tokens before a redirection operator parse without
  error on their own and hold an operator of the same direction, \<open>Parse\<close> fails at
  the second one with \<open>Multiple redirection\<close>, whatever follows it.
\<close>

theorem Parse_multiple_redirection:
  assumes "Parse glob pre = Inr ast" and "is_redirect_token d" and "d \<in> set pre"
  shows "Parse glob (pre @ d # rest) = Inl (ParseError ''Multiple redirection'')"
proof -
  from Parse_reaches[OF assms(1)] obtain st where st: "Parse_loop glob Parse_init pre = Inr st"
    and r: "ret st = ast" and c: "command_first st" and n: "redirects_counted st"
    and p: "\<And>rest. Parse glob (pre @ rest) =
            (case Parse_loop glob st rest of Inl err \<Rightarrow> Inl err | Inr st' \<Rightarrow> Inr (ret st'))"
    by blast
  have "1 \<le> seen d st"
    using Parse_loop_seen[OF st, of d] assms(2,3) by (auto simp: is_redirect_token_def)
  with c have "Parse_body glob st d rest = Inl (ParseError ''Multiple redirection'')"
    using assms(2) by (rule Parse_redirect_seen)
  then show ?thesis by (simp add: p)
qed

theorem Parse_multiple_redirection_witness:
  "Parse glob_literal [Word ''ls'', GreaterThan, Word ''file'']
     = Inr (Node WORD (Some ''ls'') Null
             (Node OP_GREATERTHAN None Null (Node WORD (Some ''file'') Null Null)))
   \<and> is_redirect_token GreaterThan
   \<and> GreaterThan \<in> set [Word ''ls'', GreaterThan, Word ''file'']
   \<and> Parse glob_literal ([Word ''ls'', GreaterThan, Word ''file''] @ GreaterThan # [Word ''file''])
     = Inl (ParseError ''Multiple redirection'')"
proof -
  have a: "Parse glob_literal [Word ''ls'', GreaterThan, Word ''file'']
     = Inr (Node WORD (Some ''ls'') Null
             (Node OP_GREATERTHAN None Null (Node WORD (Some ''file'') Null Null)))"
    by (simp add: Parse_def Parse_init_def Parse_redirect_def glob_append_def AST_word_def
          AST_redirect_def glob_literal_def)
  have b: "is_redirect_token GreaterThan" by (simp add: is_redirect_token_def)
  have c: "GreaterThan \<in> set [Word ''ls'', GreaterThan, Word ''file'']" by simp
  show ?thesis using a b c Parse_multiple_redirection[OF a b c, of "[Word ''file'']"] by simp
qed

text \<open>
  Claim C3 as it is written fails on \<open>ls > a | > b\<close>: the stream holds a second
  output redirection, and the pipe before it, which no word follows, is reported first.
\<close>

theorem Parse_multiple_redirection_counterexample:
  "Parse glob_literal [Word ''ls'', GreaterThan, Word ''a'', Pipe, GreaterThan, Word ''b'']
     = Inl (ParseError ''No command specified'')"
  by (simp add: Parse_def Parse_init_def Parse_redirect_def Parse_pipe_def glob_append_def
        AST_word_def AST_redirect_def glob_literal_def)

text \<open>
  Claim C4, as amended.  When the tokens before a pipe token parse without error on
  their own, and they leave an empty pipeline or the token after the pipe is neither
  a \<open>Word\<close> nor a \<open>QuotedWord\<close>, \<open>Parse\<close> fails with \<open>No command specified\<close>.
  The input \<open>|\<close> is the case of no tokens before and none after.
\<close>

theorem Parse_pipe_no_command:
  assumes "Parse glob pre = Inr ast"
    and "ast = Null \<or> (TOK_next_type rest \<noteq> TOK_WORD \<and> TOK_next_type rest \<noteq> TOK_QUOTED_WORD)"
  shows "Parse glob (pre @ Pipe # rest) = Inl (ParseError ''No command specified'')"
proof -
  from Parse_reaches[OF assms(1)] obtain st where st: "Parse_loop glob Parse_init pre = Inr st"
    and r: "ret st = ast" and c: "command_first st" and n: "redirects_counted st"
    and p: "\<And>rest. Parse glob (pre @ rest) =
            (case Parse_loop glob st rest of Inl err \<Rightarrow> Inl err | Inr st' \<Rightarrow> Inr (ret st'))"
    by blast
  have "Parse_body glob st Pipe rest = Inl (ParseError ''No command specified'')"
    using assms(2) r by (auto simp: Parse_pipe_def Let_def)
  then show ?thesis by (simp add: p)
qed

theorem Parse_pipe_no_command_witness:
  "Parse glob_literal [] = Inr Null
   \<and> Parse glob_literal ([] @ Pipe # []) = Inl (ParseError ''No command specified'')
   \<and> Parse glob_literal [Word ''cat''] = Inr (Node WORD (Some ''cat'') Null Null)
   \<and> TOK_next_type [LessThan, QuotedWord ''file.txt''] \<noteq> TOK_WORD
   \<and> TOK_next_type [LessThan, QuotedWord ''file.txt''] \<noteq> TOK_QUOTED_WORD
   \<and> Parse glob_literal ([Word ''cat''] @ Pipe # [LessThan, QuotedWord ''file.txt''])
       = Inl (ParseError ''No command specified'')"
proof -
  have a: "Parse glob_literal [] = Inr Null" by (simp add: Parse_def Parse_init_def)
  have b: "Parse glob_literal [Word ''cat''] = Inr (Node WORD (Some ''cat'') Null Null)"
    by (simp add: Parse_def Parse_init_def glob_append_def AST_word_def glob_literal_def)
  have c: "TOK_next_type [LessThan, QuotedWord ''file.txt''] \<noteq> TOK_WORD \<and>
           TOK_next_type [LessThan, QuotedWord ''file.txt''] \<noteq> TOK_QUOTED_WORD" by simp
  show ?thesis
    using a b c Parse_pipe_no_command[OF a, of "[]"]
      Parse_pipe_no_command[OF b, of "[LessThan, QuotedWord ''file.txt'']"]
    by simp
qed

text \<open>
  Claim C4 as it is written fails on \<open>ls > a > b |\<close>: no word follows the pipe
  token, and the second output redirection before it is reported first.
\<close>

theorem Parse_pipe_no_command_counterexample:
  "TOK_next_type [] \<noteq> TOK_WORD \<and> TOK_next_type [] \<noteq> TOK_QUOTED_WORD \<and>
   Parse glob_literal ([Word ''ls'', GreaterThan, Word ''a'', GreaterThan, Word ''b''] @ Pipe # [])
     = Inl (ParseError ''Multiple redirection'')"
  by (simp add: Parse_def Parse_init_def Parse_redirect_def Parse_pipe_def glob_append_def
        AST_word_def AST_redirect_def glob_literal_def)

lemma Parse_body_unseen:
  assumes "Parse_body glob st token tokens = Inr (st', tokens')" and "token \<noteq> d"
  shows "seen d st' = seen d st"
  using assms
  by (cases token; cases d;
      auto simp: Parse_redirect_def Parse_pipe_def Let_def
           split: if_splits list.splits Token.splits option.splits sum.splits)

lemma Parse_body_rest_subset:
  "Parse_body glob st token tokens = Inr (st', tokens') \<Longrightarrow> set tokens' \<subseteq> set tokens"
  by (cases token;
      auto simp: Parse_redirect_def Parse_pipe_def Let_def
           split: if_splits list.splits Token.splits option.splits sum.splits)

lemma Parse_loop_unseen:
  "Parse_loop glob st tokens = Inr st' \<Longrightarrow> d \<notin> set tokens \<Longrightarrow> seen d st' = seen d st"
proof (induction glob st tokens rule: Parse_loop.induct)
  case (1 glob st)
  then show ?case by simp
next
  case (2 glob st token tokens)
  from "2.prems" obtain st1 tokens1 where
    b: "Parse_body glob st token tokens = Inr (st1, tokens1)" and
    l: "Parse_loop glob st1 tokens1 = Inr st'"
    by (auto split: sum.splits)
  have "d \<notin> set tokens1" using Parse_body_rest_subset[OF b] "2.prems"(2) by auto
  then have "seen d st' = seen d st1" using "2.IH"[OF b refl l] by simp
  moreover have "seen d st1 = seen d st" using Parse_body_unseen[OF b] "2.prems"(2) by auto
  ultimately show ?case by simp
qed

lemma Parse_redirect_accepts:
  assumes "command_first st" and "redirects_counted st" and "ret st \<noteq> Null"
    and "is_redirect_token d" and "seen d st = 0"
  shows "TOK_next_type rest \<noteq> TOK_WORD \<Longrightarrow>
           Parse_body glob st d rest = Inl (ParseError ''Expect filename after redirection'')"
    and "glob g = Some (p # ps) \<Longrightarrow>
           Parse_loop glob st [d, Word g] =
             Inr \<lparr>ret = AST_append (ret st) (Node (redirect_type d) None Null (word_chain (p # ps))),
                  redirect_in = redirect_in st + (if d = LessThan then 1 else 0),
                  redirect_out = redirect_out st + (if d = GreaterThan then 1 else 0)\<rparr>"
  using assms
  by (cases "ret st";
      auto simp: is_redirect_token_def command_first_def redirects_counted_def redirect_type_def
                 Parse_redirect_def Let_def glob_append_chain AST_redirect_def)+

lemma Parse_redirect_not_no_command:
  assumes "command_first st" and "ret st \<noteq> Null" and "is_redirect_token d"
  shows "Parse_body glob st d rest \<noteq> Inl (ParseError ''No command specified'')"
proof
  assume "Parse_body glob st d rest = Inl (ParseError ''No command specified'')"
  with assms show False
    by (cases "ret st")
       (auto simp: is_redirect_token_def command_first_def Parse_redirect_def Let_def glob_append_chain
             split: if_splits list.splits Token.splits option.splits sum.splits)
qed

text \<open>
  Claim C2, as amended.  Let a redirection operator \<open>r2\<close> come right after a
  redirection \<open>r1\<close> with its file name, the tokens up to there parsing without error,
  so that the node appended last is the redirect node of \<open>r1\<close>.  Then the turn of
  the loop for \<open>r2\<close> does not answer \<open>No command specified\<close>: \<open>Parse\<close> fails with
  \<open>Multiple redirection\<close> when an operator of that direction came before; otherwise it
  fails with \<open>Expect filename after redirection\<close> when the next token is not a
  \<open>Word\<close>; and otherwise it appends the second redirect, so that a stream that ends
  with its file name parses.
\<close>

theorem Parse_redirect_after_redirect:
  assumes "Parse glob (pre @ [r1, Word f]) = Inr ast"
    and "is_redirect_token r1" and "is_redirect_token r2"
  shows "(\<forall>st. Parse_loop glob Parse_init (pre @ [r1, Word f]) = Inr st \<longrightarrow>
           Parse_body glob st r2 rest \<noteq> Inl (ParseError ''No command specified''))
       \<and> (r2 \<in> set (pre @ [r1]) \<longrightarrow>
           Parse glob ((pre @ [r1, Word f]) @ r2 # rest) = Inl (ParseError ''Multiple redirection''))
       \<and> (r2 \<notin> set (pre @ [r1]) \<and> TOK_next_type rest \<noteq> TOK_WORD \<longrightarrow>
           Parse glob ((pre @ [r1, Word f]) @ r2 # rest)
             = Inl (ParseError ''Expect filename after redirection''))
       \<and> (r2 \<notin> set (pre @ [r1]) \<and> glob g = Some (p # ps) \<longrightarrow>
           Parse glob ((pre @ [r1, Word f]) @ [r2, Word g])
             = Inr (AST_append ast (Node (redirect_type r2) None Null (word_chain (p # ps)))))"
proof -
  let ?pre = "pre @ [r1, Word f]"
  from Parse_reaches[OF assms(1)] obtain st where st: "Parse_loop glob Parse_init ?pre = Inr st"
    and r: "ret st = ast" and c: "command_first st" and n: "redirects_counted st"
    and p: "\<And>rest. Parse glob (?pre @ rest) =
            (case Parse_loop glob st rest of Inl err \<Rightarrow> Inl err | Inr st' \<Rightarrow> Inr (ret st'))"
    by blast
  have s1: "1 \<le> seen r1 st"
    using Parse_loop_seen[OF st, of r1] assms(2) by (auto simp: is_redirect_token_def)
  have nonnull: "ret st \<noteq> Null"
    using s1 c assms(2) by (auto simp: command_first_def is_redirect_token_def split: AST.splits)
  have in_pre: "r2 \<in> set (pre @ [r1]) \<longleftrightarrow> r2 \<in> set ?pre"
    using assms(3) by (auto simp: is_redirect_token_def)
  have one: "r2 \<in> set (pre @ [r1]) \<Longrightarrow>
           Parse glob (?pre @ r2 # rest) = Inl (ParseError ''Multiple redirection'')"
  proof -
    assume "r2 \<in> set (pre @ [r1])"
    then have "1 \<le> seen r2 st"
      using Parse_loop_seen[OF st, of r2] assms(3) in_pre by (auto simp: is_redirect_token_def)
    with c have "Parse_body glob st r2 rest = Inl (ParseError ''Multiple redirection'')"
      using assms(3) by (rule Parse_redirect_seen)
    then show ?thesis by (subst p) simp
  qed
  have unseen: "r2 \<notin> set (pre @ [r1]) \<Longrightarrow> seen r2 st = 0"
  proof -
    assume "r2 \<notin> set (pre @ [r1])"
    then have "r2 \<notin> set ?pre" using in_pre by simp
    then have "seen r2 st = seen r2 Parse_init" using Parse_loop_unseen[OF st] by simp
    then show ?thesis using assms(3) by (auto simp: Parse_init_def is_redirect_token_def)
  qed
  have two: "r2 \<notin> set (pre @ [r1]) \<Longrightarrow> TOK_next_type rest \<noteq> TOK_WORD \<Longrightarrow>
           Parse glob (?pre @ r2 # rest) = Inl (ParseError ''Expect filename after redirection'')"
    using Parse_redirect_accepts(1)[OF c n nonnull assms(3)] unseen by (subst p) simp
  have three: "r2 \<notin> set (pre @ [r1]) \<Longrightarrow> glob g = Some (p # ps) \<Longrightarrow>
           Parse glob (?pre @ [r2, Word g])
             = Inr (AST_append ast (Node (redirect_type r2) None Null (word_chain (p # ps))))"
    using Parse_redirect_accepts(2)[OF c n nonnull assms(3)] unseen r by (subst p) simp
  have zero: "\<forall>st. Parse_loop glob Parse_init ?pre = Inr st \<longrightarrow>
           Parse_body glob st r2 rest \<noteq> Inl (ParseError ''No command specified'')"
    using Parse_redirect_not_no_command[OF c nonnull assms(3)] st by simp
  show ?thesis using zero one two three by blast
qed

theorem Parse_redirect_after_redirect_witness:
  "Parse glob_literal ([Word ''ls''] @ [GreaterThan, Word ''a''])
     = Inr (Node WORD (Some ''ls'') Null
             (Node OP_GREATERTHAN None Null (Node WORD (Some ''a'') Null Null)))
   \<and> is_redirect_token GreaterThan \<and> is_redirect_token LessThan
   \<and> LessThan \<notin> set ([Word ''ls''] @ [GreaterThan])
   \<and> glob_literal ''b'' = Some (''b'' # [])
   \<and> Parse glob_literal (([Word ''ls''] @ [GreaterThan, Word ''a'']) @ [LessThan, Word ''b''])
     = Inr (AST_append (Node WORD (Some ''ls'') Null
             (Node OP_GREATERTHAN None Null (Node WORD (Some ''a'') Null Null)))
             (Node (redirect_type LessThan) None Null (word_chain (''b'' # []))))
   \<and> TOK_next_type [QuotedWord ''b''] \<noteq> TOK_WORD
   \<and> Parse glob_literal (([Word ''ls''] @ [GreaterThan, Word ''a'']) @ LessThan # [QuotedWord ''b''])
     = Inl (ParseError ''Expect filename after redirection'')
   \<and> GreaterThan \<in> set ([Word ''ls''] @ [GreaterThan])
   \<and> Parse glob_literal (([Word ''ls''] @ [GreaterThan, Word ''a'']) @ GreaterThan # [Word ''b''])
     = Inl (ParseError ''Multiple redirection'')"
proof -
  have a: "Parse glob_literal ([Word ''ls''] @ [GreaterThan, Word ''a''])
     = Inr (Node WORD (Some ''ls'') Null
             (Node OP_GREATERTHAN None Null (Node WORD (Some ''a'') Null Null)))"
    by (simp add: Parse_def Parse_init_def Parse_redirect_def glob_append_def AST_word_def
          AST_redirect_def glob_literal_def)
  have b: "is_redirect_token GreaterThan" "is_redirect_token LessThan"
    by (simp_all add: is_redirect_token_def)
  have c: "glob_literal ''b'' = Some (''b'' # [])" by (simp add: glob_literal_def)
  show ?thesis
    using a b c
      Parse_redirect_after_redirect[OF a b(1) b(2), of "[QuotedWord ''b'']" "''b''" "''b''" "[]"]
      Parse_redirect_after_redirect[OF a b(1) b(1), of "[Word ''b'']" "''b''" "''b''" "[]"]
    by simp
qed

text \<open>
  Claim C2 as it is written fails on \<open>ls > a < b\<close>: the input redirection arrives
  when the output redirect is the node appended last, and the stream parses.
\<close>

theorem Parse_redirect_after_redirect_counterexample:
  "Parse glob_literal [Word ''ls'', GreaterThan, Word ''a'', LessThan, Word ''b'']
     = Inr (Node WORD (Some ''ls'') Null
             (Node OP_GREATERTHAN None Null
               (Node WORD (Some ''a'') Null
                 (Node OP_LESSTHAN None Null (Node WORD (Some ''b'') Null Null)))))"
  by (simp add: Parse_def Parse_init_def Parse_redirect_def glob_append_def AST_word_def
        AST_redirect_def glob_literal_def)

section \<open>Properties of rendering\<close>

lemma length_store: "pos + length xs \<le> length buf \<Longrightarrow> length (store buf pos xs) = length buf"
  by (simp add: store_def)

lemma take_store:
  "pos + length xs \<le> length buf \<Longrightarrow> k \<le> length xs \<Longrightarrow>
   take (pos + k) (store buf pos xs) = take pos buf @ take k xs"
  by (simp add: store_def)

lemma snprintf_fits:
  assumes "length text < n" and "pos + n \<le> length buf"
  shows "length (snprintf buf pos n text) = length buf"
    and "take (pos + length text) (snprintf buf pos n text) = take pos buf @ text"
proof -
  have s: "snprintf buf pos n text = store buf pos (text @ [NUL])"
    using assms(1) by (simp add: snprintf_def)
  show "length (snprintf buf pos n text) = length buf"
    using assms by (simp add: s length_store)
  show "take (pos + length text) (snprintf buf pos n text) = take pos buf @ text"
    using assms take_store[of pos "text @ [NUL]" buf "length text"] by (simp add: s)
qed

lemma AST_sprint_words:
  "sz + length (spaced ws) < length buf \<Longrightarrow>
   \<exists>buf'. AST_sprint (word_chain ws) (length buf) (buf, sz) = (buf', sz + length (spaced ws)) \<and>
          length buf' = length buf \<and>
          take (sz + length (spaced ws)) buf' = take sz buf @ spaced ws"
proof (induction ws arbitrary: buf sz)
  case Nil
  then show ?case by (simp add: spaced_def)
next
  case (Cons w ws)
  let ?text = "w @ '' ''"
  let ?n = "length buf - sz"
  let ?buf1 = "snprintf buf sz ?n ?text"
  have sp: "spaced (w # ws) = ?text @ spaced ws" by (simp add: spaced_def)
  have fits: "length ?text < ?n" "sz + ?n \<le> length buf"
    using Cons.prems by (auto simp: sp)
  have l1: "length ?buf1 = length buf" and t1: "take (sz + length ?text) ?buf1 = take sz buf @ ?text"
    using snprintf_fits[OF fits] by auto
  have "(sz + length ?text) + length (spaced ws) < length ?buf1"
    using Cons.prems by (simp add: sp l1)
  from Cons.IH[OF this] obtain buf' where
    r: "AST_sprint (word_chain ws) (length ?buf1) (?buf1, sz + length ?text)
          = (buf', (sz + length ?text) + length (spaced ws))" and
    l: "length buf' = length ?buf1" and
    t: "take ((sz + length ?text) + length (spaced ws)) buf' = take (sz + length ?text) ?buf1 @ spaced ws"
    by blast
  have m: "min ?n (length ?text) = length ?text" using fits(1) by simp
  have "AST_sprint (word_chain (w # ws)) (length buf) (buf, sz)
          = (buf', sz + length (spaced (w # ws)))"
    using r Cons.prems m by (simp add: node_text_def l1 sp add.assoc)
  moreover have "length buf' = length buf" using l l1 by simp
  moreover have "take (sz + length (spaced (w # ws))) buf' = take sz buf @ spaced (w # ws)"
    using t t1 by (simp add: sp add.assoc)
  ultimately show ?case by blast
qed

lemma spaced_join: "ws \<noteq> [] \<Longrightarrow> spaced ws = join_words ws @ '' ''"
  by (induction ws rule: join_words.induct) (auto simp: spaced_def)

lemma last_join_words: "ws \<noteq> [] \<Longrightarrow> last ws \<noteq> [] \<Longrightarrow> join_words ws \<noteq> [] \<and> last (join_words ws) = last (last ws)"
  by (induction ws rule: join_words.induct) auto

lemma trim_one:
  assumes "take (Suc n) buf = text @ '' ''" and "text \<noteq> []" and "last text \<noteq> CHR '' ''"
    and "Suc n \<le> length buf"
  shows "trim_spaces buf (Suc n) = Inr n"
proof -
  have len: "length text = n" using arg_cong[OF assms(1), of length] assms(4) by simp
  have a: "buf ! n = CHR '' ''"
    using assms(1,4) len by (metis lessI nth_append_length nth_take)
  obtain m where n: "n = Suc m" using len assms(2) by (cases n) auto
  have "buf ! m = last text"
  proof -
    have "buf ! m = (take (Suc n) buf) ! m" using n by simp
    also have "\<dots> = text ! m" using assms(1) len n by (simp add: nth_append)
    also have "\<dots> = last text" using len n assms(2) by (simp add: last_conv_nth)
    finally show ?thesis .
  qed
  then show ?thesis using a assms(3,4) n by (simp add: mem_read_def)
qed

lemma Parse_loop_words:
  "Parse_loop glob_literal st (map Word ws) = Inr (st\<lparr>ret := AST_append (ret st) (word_chain ws)\<rparr>)"
proof (induction ws arbitrary: st)
  case Nil
  then show ?case by simp
next
  case (Cons w ws)
  have "AST_append (AST_append (ret st) (Node WORD (Some w) Null Null)) (word_chain ws)
          = AST_append (ret st) (Node WORD (Some w) Null (word_chain ws))"
    by (cases "word_chain ws") (simp_all add: AST_append_assoc del: AST_append.simps(3), simp_all)
  moreover have "glob_append glob_literal (ret st) w
          = Inr (AST_append (ret st) (Node WORD (Some w) Null Null))"
    by (simp add: glob_append_chain glob_literal_def)
  ultimately show ?case
    by (simp add: Cons.IH)
qed

text \<open>
  Claim C8, as amended.  Take words \<open>ws\<close>, at least one, the last of them not empty
  and not ending in a space, and an array with room for the rendered text and two more
  bytes.  The tree that \<open>Parse\<close> builds from their \<open>Word\<close> tokens without pattern
  expansion is the chain of their \<open>WORD\<close> nodes, and \<open>AST_pipeline2str\<close> writes
  the words joined by single spaces, terminates them with NUL and returns their length.
  When the words are the tokens of a command text, that text is the words with white
  space between them.
\<close>

theorem words_render_joined:
  assumes "ws \<noteq> []" and "last ws \<noteq> []" and "last (last ws) \<noteq> CHR '' ''"
    and "length (join_words ws) + 2 \<le> length buf"
  shows "Parse glob_literal (map Word ws) = Inr (word_chain ws)
       \<and> (\<exists>buf'. AST_pipeline2str (word_chain ws) buf = Inr (buf', length (join_words ws))
              \<and> length buf' = length buf
              \<and> take (length (join_words ws)) buf' = join_words ws
              \<and> buf' ! length (join_words ws) = NUL)
       \<and> (TOK_tokenize_input line = Inr (map Word ws) \<longrightarrow> verbatim line (map Word ws))"
proof -
  let ?j = "join_words ws"
  have v: "TOK_tokenize_input line = Inr (map Word ws) \<longrightarrow> verbatim line (map Word ws)"
    using tok_loop_verbatim[of None line "map Word ws"] by (simp add: TOK_tokenize_input_def)
  have p: "Parse glob_literal (map Word ws) = Inr (word_chain ws)"
    by (simp add: Parse_def Parse_loop_words Parse_init_def)
  have sp: "spaced ws = ?j @ '' ''" using assms(1) by (rule spaced_join)
  then have ls: "length (spaced ws) = Suc (length ?j)" by simp
  have "0 + length (spaced ws) < length buf" using assms(4) ls by simp
  from AST_sprint_words[OF this] obtain buf1 where
    r: "AST_sprint (word_chain ws) (length buf) (buf, 0) = (buf1, Suc (length ?j))" and
    l: "length buf1 = length buf" and
    t: "take (Suc (length ?j)) buf1 = ?j @ '' ''"
    by (auto simp: ls sp)
  have jl: "?j \<noteq> []" "last ?j \<noteq> CHR '' ''"
    using last_join_words[OF assms(1,2)] assms(3) by auto
  have tr: "trim_spaces buf1 (Suc (length ?j)) = Inr (length ?j)"
    using trim_one[OF t jl] assms(4) l by simp
  have lt: "length ?j < length buf" using assms(4) by simp
  have w: "AST_pipeline2str (word_chain ws) buf = Inr (buf1[length ?j := NUL], length ?j)"
    using r tr lt l by (simp add: AST_pipeline2str_def mem_write_def)
  have tk: "take (length ?j) (buf1[length ?j := NUL]) = ?j"
  proof -
    have "take (length ?j) buf1 = take (length ?j) (take (Suc (length ?j)) buf1)" by simp
    also have "\<dots> = ?j" by (simp only: t) simp
    finally show ?thesis by simp
  qed
  have "\<exists>buf'. AST_pipeline2str (word_chain ws) buf = Inr (buf', length ?j)
              \<and> length buf' = length buf
              \<and> take (length ?j) buf' = ?j
              \<and> buf' ! length ?j = NUL"
    by (rule exI[of _ "buf1[length ?j := NUL]"]) (use w l tk lt in simp)
  with p v show ?thesis by blast
qed

theorem words_render_joined_witness:
  "[''ls'', ''--color''] \<noteq> [] \<and> last [''ls'', ''--color''] \<noteq> []
   \<and> last (last [''ls'', ''--color'']) \<noteq> CHR '' ''
   \<and> length (join_words [''ls'', ''--color'']) + 2 \<le> length (replicate 16 (CHR ''?''))
   \<and> join_words [''ls'', ''--color''] = ''ls --color''
   \<and> Parse glob_literal (map Word [''ls'', ''--color'']) = Inr (word_chain [''ls'', ''--color''])
   \<and> (\<exists>buf'. AST_pipeline2str (word_chain [''ls'', ''--color'']) (replicate 16 (CHR ''?''))
                = Inr (buf', length (join_words [''ls'', ''--color'']))
              \<and> length buf' = length (replicate 16 (CHR ''?''))
              \<and> take (length (join_words [''ls'', ''--color''])) buf' = join_words [''ls'', ''--color'']
              \<and> buf' ! length (join_words [''ls'', ''--color'']) = NUL)
   \<and> TOK_tokenize_input ''ls   --color'' = Inr (map Word [''ls'', ''--color''])
   \<and> verbatim ''ls   --color'' (map Word [''ls'', ''--color''])"
proof -
  have f: "TOK_tokenize_input ''ls   --color'' = Inr (map Word [''ls'', ''--color''])"
    by (simp add: TOK_tokenize_input_def isspace_def)
  have a: "[''ls'', ''--color''] \<noteq> []" by simp
  have b: "last [''ls'', ''--color''] \<noteq> []" by simp
  have c: "last (last [''ls'', ''--color'']) \<noteq> CHR '' ''" by simp
  have d: "length (join_words [''ls'', ''--color'']) + 2 \<le> length (replicate 16 (CHR ''?''))" by simp
  have e: "join_words [''ls'', ''--color''] = ''ls --color''" by simp
  show ?thesis
    using a b c d e f words_render_joined[OF a b c d, of "''ls   --color''"] by blast
qed

text \<open>
  Claim C8 as it is written fails on a last word that ends in an escaped space: the
  loop that trims the separator after the last word also takes the space of the word,
  and the word \<open>ls\<close> and the word of \<open>a\<close>, a backslash and a space are rendered, in
  an array of 16 bytes, without that space.  It also fails where the array is too small: with 4 bytes the words \<open>ls\<close>
  and \<open>-l\<close> are rendered as \<open>ls$\<close>, the truncation that the header file
  documents.
\<close>

theorem words_render_joined_counterexample:
  "join_words [''ls'', ''a'' @ [BACKSLASH] @ '' ''] = ''ls a'' @ [BACKSLASH] @ '' ''
   \<and> AST_pipeline2str (word_chain [''ls'', ''a'' @ [BACKSLASH] @ '' '']) (replicate 16 (CHR ''?''))
       = Inr (''ls a'' @ [BACKSLASH, NUL] @ '' '' @ [NUL] @ replicate 8 (CHR ''?''), 5)
   \<and> c_string (''ls a'' @ [BACKSLASH, NUL] @ '' '' @ [NUL] @ replicate 8 (CHR ''?''))
       = ''ls a'' @ [BACKSLASH]
   \<and> join_words [''ls'', ''-l''] = ''ls -l''
   \<and> AST_pipeline2str (word_chain [''ls'', ''-l'']) ''????''
       = Inr ([CHR ''l'', CHR ''s'', CHR ''$'', NUL], 3)
   \<and> c_string [CHR ''l'', CHR ''s'', CHR ''$'', NUL] = ''ls$''"
  by (simp add: AST_pipeline2str_def node_text_def snprintf_def store_def mem_read_def
        mem_write_def c_string_def numeral_eq_Suc)

text \<open>
  Claim C7 fails on the code.  With an array of one byte the node \<open>ls\<close> makes
  \<open>AST_pipeline2str\<close> write the mark \<open>$\<close> at index \<open>size - 1\<close> with \<open>size = 0\<close>,
  before the array; with an array of no byte it writes the NUL there; and for the empty
  tree it reads \<open>buf[size-1]\<close> with \<open>size = 0\<close>, whatever the array is.
\<close>

theorem AST_pipeline2str_leaves_the_buffer:
  "AST_pipeline2str (Node WORD (Some ''ls'') Null Null) [ch] = Inl OutOfBounds
   \<and> AST_pipeline2str (Node WORD (Some ''ls'') Null Null) [] = Inl OutOfBounds
   \<and> AST_pipeline2str Null buf = Inl OutOfBounds"
  by (simp add: AST_pipeline2str_def node_text_def snprintf_def store_def mem_read_def
        mem_write_def)

section \<open>Properties of execution\<close>

lemma length_setargs: "length (setargs pipeline) = AST_countpipes pipeline + 1"
  by (induction pipeline) auto

lemma run_stages_external:
  "list_all external_stage stages \<Longrightarrow>
   fst (run_stages sys w i stages)
     = (if list_all (fork_ok sys) [i..<i + length stages] then None else Some (Exited 1))"
proof (induction stages arbitrary: w i)
  case Nil
  then show ?case by simp
next
  case (Cons slot stages)
  from Cons.prems obtain argc av cmd where
    slot: "slot = Some (argc, av)" and cmd: "argv_at av 0 = Some cmd"
    and ext: "cmd \<noteq> ''exit''" "cmd \<noteq> ''quit''" "cmd \<noteq> ''cd''"
    by (auto simp: external_stage_def split: option.splits)
  have rest: "list_all external_stage stages" using Cons.prems by simp
  have up: "[i..<Suc (i + length stages)] = i # [Suc i..<Suc (i + length stages)]"
    by (rule upt_conv_Cons) simp
  show ?case
    using Cons.IH[OF rest, of _ "Suc i"] slot cmd ext by (simp add: up del: upt.simps)
qed

lemma aggregate_Nil [simp]: "aggregate exit_val [] = exit_val"
  by (simp add: aggregate_def)

lemma aggregate_Cons:
  "aggregate exit_val ((pid, status) # results)
     = aggregate (if pid > 0 \<and> WEXITSTATUS status \<noteq> 0 then WEXITSTATUS status else exit_val) results"
  by (auto simp: aggregate_def split: list.splits)

lemma wait_loop_aggregate:
  "fst (wait_loop sys i n (exit_val, out)) = aggregate exit_val (map (wait_result sys) [i..<i + n])"
proof (induction n arbitrary: i exit_val out)
  case 0
  then show ?case by simp
next
  case (Suc n)
  obtain pid status where r: "wait_result sys i = (pid, status)" by (cases "wait_result sys i")
  have up: "[i..<Suc (i + n)] = i # [Suc i..<Suc (i + n)]" by (rule upt_conv_Cons) simp
  show ?case
    using Suc.IH[of "Suc i"] r by (simp add: up aggregate_Cons del: upt.simps)
qed

lemma aggregate_0: "aggregate 0 results = last_nonzero_status results"
  by (simp add: aggregate_def last_nonzero_status_def)

text \<open>
  Claim C1.  For a pipeline whose stages all have a command name other than \<open>exit\<close>,
  \<open>quit\<close> and \<open>cd\<close>, \<open>AST_execute\<close> returns, when every \<open>pipe\<close> and
  \<open>fork\<close> call succeeds, the exit status of the last wait result that has a
  positive child ID and a status other than 0, and 0 when there is none; a wait result
  with a child ID that is not positive is passed over.  When a \<open>pipe\<close> or
  \<open>fork\<close> call fails, the process exits and nothing is returned.
\<close>

theorem AST_execute_last_nonzero_status:
  assumes "list_all external_stage (setargs pipeline)"
  shows "fst (AST_execute sys w pipeline)
           = (if make_pipes sys 0 (AST_countpipes pipeline) \<and>
                 list_all (fork_ok sys) [0..<AST_countpipes pipeline + 1]
              then Returned (last_nonzero_status
                     (map (wait_result sys) [0..<AST_countpipes pipeline + 1]))
              else Exited 1)"
proof -
  define n where "n = AST_countpipes pipeline + 1"
  have rs: "fst (run_stages sys w 0 (setargs pipeline))
              = (if list_all (fork_ok sys) [0..<n] then None else Some (Exited 1))"
    using run_stages_external[OF assms, of sys w 0] by (simp add: length_setargs n_def)
  obtain ended w1 where r: "run_stages sys w 0 (setargs pipeline) = (ended, w1)"
    by (cases "run_stages sys w 0 (setargs pipeline)")
  obtain ev out where wl: "wait_loop sys 0 n (0, printed w1) = (ev, out)"
    by (cases "wait_loop sys 0 n (0, printed w1)")
  have ev: "ev = last_nonzero_status (map (wait_result sys) [0..<n])"
    using wait_loop_aggregate[of sys 0 n 0 "printed w1"] wl by (simp add: aggregate_0)
  have ex: "AST_execute sys w pipeline =
     (if \<not> make_pipes sys 0 (AST_countpipes pipeline)
      then (Exited 1, w\<lparr>printed := printed w @ [Perror ''pipe'']\<rparr>)
      else (case run_stages sys w 0 (setargs pipeline) of
              (Some ended, w1) \<Rightarrow> (ended, w1)
            | (None, w1) \<Rightarrow>
                (case wait_loop sys 0 n (0, printed w1) of
                   (exit_val, out) \<Rightarrow> (Returned exit_val, w1\<lparr>printed := out\<rparr>))))"
    unfolding AST_execute_def Let_def n_def by (rule refl)
  have "fst (AST_execute sys w pipeline)
           = (if make_pipes sys 0 (AST_countpipes pipeline) \<and> list_all (fork_ok sys) [0..<n]
              then Returned (last_nonzero_status (map (wait_result sys) [0..<n]))
              else Exited 1)"
  proof (cases "make_pipes sys 0 (AST_countpipes pipeline)")
    case False
    then show ?thesis by (simp add: ex)
  next
    case True
    show ?thesis
    proof (cases "list_all (fork_ok sys) [0..<n]")
      case False
      then have "ended = Some (Exited 1)" using rs r by simp
      then show ?thesis using True False r by (simp add: ex)
    next
      case f: True
      then have "ended = None" using rs r by simp
      then show ?thesis using True f r wl ev by (simp add: ex)
    qed
  qed
  then show ?thesis unfolding n_def .
qed

theorem AST_execute_last_nonzero_status_witness:
  "list_all external_stage
     (setargs (Node OP_PIPE None (Node WORD (Some ''ls'') Null Null)
                 (Node WORD (Some ''wc'') Null (Node WORD (Some ''-l'') Null Null))))
   \<and> fst (AST_execute example_os example_world
        (Node OP_PIPE None (Node WORD (Some ''ls'') Null Null)
           (Node WORD (Some ''wc'') Null (Node WORD (Some ''-l'') Null Null))))
      = Returned 3"
proof -
  let ?p = "Node OP_PIPE None (Node WORD (Some ''ls'') Null Null)
                 (Node WORD (Some ''wc'') Null (Node WORD (Some ''-l'') Null Null))"
  have a: "list_all external_stage (setargs ?p)"
    by (simp add: external_stage_def argv_at_def isword_def)
  have b: "make_pipes example_os 0 (AST_countpipes ?p)" by (simp add: example_os_def)
  have c: "list_all (fork_ok example_os) [0..<AST_countpipes ?p + 1]"
    by (simp add: example_os_def)
  have u: "[0..<AST_countpipes ?p + 1] = [0, 1]" by (simp add: upt_rec)
  have w3: "WEXITSTATUS 0x0300 = 3" by (simp add: WEXITSTATUS_def)
  have w0: "WEXITSTATUS 0 = 0" by (simp add: WEXITSTATUS_def)
  have d: "last_nonzero_status (map (wait_result example_os) [0..<AST_countpipes ?p + 1]) = 3"
    unfolding u by (simp add: example_os_def last_nonzero_status_def w3 w0)
  show ?thesis
    using a AST_execute_last_nonzero_status[OF a, of example_os example_world] b c d by simp
qed

text \<open>
  Claim C9 fails on the line \<open>cd > out\<close>, where the argument of \<open>cd\<close> is
  omitted and a redirection follows the name.  The line tokenizes and parses;
  \<open>setargs\<close> stores the string \<open>>\<close> of the redirect node as \<open>argv[1]\<close>, and the
  \<open>cd\<close> branch of \<open>AST_execute\<close> passes that string to \<open>chdir\<close>: the parent
  ends in the directory \<open>>\<close>, not in the home directory, to which \<open>cd\<close> alone
  changes.  In every system and every state of the shell the directory it asks for is
  \<open>>\<close>, and \<open>HOME\<close> is not read.  The branch of the child in the same loop looks for these entries and
  removes them from \<open>argv\<close> before \<open>exec\<close>; the \<open>cd\<close> branch reads \<open>argv[1]\<close>
  as it is.
\<close>

theorem AST_execute_cd_redirect_as_directory:
  "TOK_tokenize_input ''cd > out'' = Inr [Word ''cd'', GreaterThan, Word ''out'']
   \<and> Parse glob_literal [Word ''cd'', GreaterThan, Word ''out'']
     = Inr (Node WORD (Some ''cd'') Null
             (Node OP_GREATERTHAN None Null (Node WORD (Some ''out'') Null Null)))
   \<and> setargs (Node WORD (Some ''cd'') Null
             (Node OP_GREATERTHAN None Null (Node WORD (Some ''out'') Null Null)))
     = [Some (3, [Some ''cd'', Some ''>'', Some ''out''])]
   \<and> getenv_HOME childless_os = Some ''/home/user''
   \<and> AST_execute childless_os example_world
       (Node WORD (Some ''cd'') Null
          (Node OP_GREATERTHAN None Null (Node WORD (Some ''out'') Null Null)))
     = (Returned 0, \<lparr>cwd = ''>'', children = [], printed = []\<rparr>)
   \<and> AST_execute childless_os example_world (Node WORD (Some ''cd'') Null Null)
     = (Returned 0, \<lparr>cwd = ''/home/user'', children = [], printed = []\<rparr>)
   \<and> cwd (snd (AST_execute sys w
         (Node WORD (Some ''cd'') Null
            (Node OP_GREATERTHAN None Null (Node WORD (Some ''out'') Null Null)))))
     = (case chdir_result sys (cwd w) (Some ''>'') of None \<Rightarrow> cwd w | Some dir \<Rightarrow> dir)"
proof -
  have line: "TOK_tokenize_input ''cd > out'' = Inr [Word ''cd'', GreaterThan, Word ''out'']"
    by (simp add: TOK_tokenize_input_def isspace_def)
  have tree: "Parse glob_literal [Word ''cd'', GreaterThan, Word ''out'']
     = Inr (Node WORD (Some ''cd'') Null
             (Node OP_GREATERTHAN None Null (Node WORD (Some ''out'') Null Null)))"
    by (simp add: Parse_def Parse_init_def Parse_redirect_def glob_append_def AST_word_def
          AST_redirect_def glob_literal_def)
  have vector: "setargs (Node WORD (Some ''cd'') Null
             (Node OP_GREATERTHAN None Null (Node WORD (Some ''out'') Null Null)))
     = [Some (3, [Some ''cd'', Some ''>'', Some ''out''])]"
    by (simp add: isword_def)
  have home: "getenv_HOME childless_os = Some ''/home/user''"
    by (simp add: childless_os_def example_os_def)
  have redirect: "AST_execute childless_os example_world
       (Node WORD (Some ''cd'') Null
          (Node OP_GREATERTHAN None Null (Node WORD (Some ''out'') Null Null)))
     = (Returned 0, \<lparr>cwd = ''>'', children = [], printed = []\<rparr>)"
    by (simp add: AST_execute_def example_os_def childless_os_def example_world_def
          argv_at_def isword_def builtin_cd_def)
  have alone: "AST_execute childless_os example_world (Node WORD (Some ''cd'') Null Null)
     = (Returned 0, \<lparr>cwd = ''/home/user'', children = [], printed = []\<rparr>)"
    by (simp add: AST_execute_def example_os_def childless_os_def example_world_def
          argv_at_def isword_def builtin_cd_def)
  have always: "cwd (snd (AST_execute sys w
         (Node WORD (Some ''cd'') Null
            (Node OP_GREATERTHAN None Null (Node WORD (Some ''out'') Null Null)))))
     = (case chdir_result sys (cwd w) (Some ''>'') of None \<Rightarrow> cwd w | Some dir \<Rightarrow> dir)"
    by (simp add: AST_execute_def argv_at_def isword_def builtin_cd_def
          split: option.splits prod.splits)
  show ?thesis using line tree vector home redirect alone always by blast
qed

lemma run_stages_append:
  "run_stages sys w i pre = (None, w') \<Longrightarrow>
   run_stages sys w i (pre @ stages) = run_stages sys w' (i + length pre) stages"
proof (induction sys w i pre rule: run_stages.induct)
  case (1 sys w i)
  then show ?case by simp
next
  case (2 sys w i stages)
  then show ?case by simp
next
  case (3 sys w i argc av stages')
  then show ?case
    by (auto split: option.splits if_splits)
qed

text \<open>
  A stage with the command name \<open>cd\<close>, followed by a word or by nothing, that the
  loop reaches: the loop changes the working directory of the parent to that word, or
  to the home directory when nothing follows, or prints the error when \<open>chdir\<close>
  fails; it forks no child for the stage, and in both cases goes on with the next
  stage.
\<close>

lemma cd_stage_in_parent:
  assumes "run_stages sys w i pre = (None, w')"
    and "isword type" and "word_or_nothing r"
  shows "run_stages sys w i
           (pre @ Some (chain_argc (Node type (Some ''cd'') l r),
                        chain_argv (Node type (Some ''cd'') l r)) # post)
         = run_stages sys
             (case chdir_result sys (cwd w')
                     (case first_argument r of None \<Rightarrow> getenv_HOME sys | Some dir \<Rightarrow> Some dir) of
                None \<Rightarrow> w'\<lparr>printed := printed w' @ [Perror ''cd'']\<rparr>
              | Some dir \<Rightarrow> w'\<lparr>cwd := dir\<rparr>)
             (Suc (i + length pre)) post"
proof -
  let ?av = "chain_argv (Node type (Some ''cd'') l r)"
  have a0: "argv_at ?av 0 = Some ''cd''" using assms(2) by (simp add: argv_at_def)
  have a1: "argv_at ?av 1 = first_argument r"
    using assms(2,3) by (cases r) (auto simp: argv_at_def)
  have "run_stages sys w' (i + length pre) (Some (chain_argc (Node type (Some ''cd'') l r), ?av) # post)
          = run_stages sys (builtin_cd sys w' ?av) (Suc (i + length pre)) post"
    using a0 by simp
  moreover have "builtin_cd sys w' ?av
          = (case chdir_result sys (cwd w')
                     (case first_argument r of None \<Rightarrow> getenv_HOME sys | Some dir \<Rightarrow> Some dir) of
                None \<Rightarrow> w'\<lparr>printed := printed w' @ [Perror ''cd'']\<rparr>
              | Some dir \<Rightarrow> w'\<lparr>cwd := dir\<rparr>)"
    unfolding builtin_cd_def a1 Let_def by (rule refl)
  ultimately show ?thesis
    using run_stages_append[OF assms(1)] by (simp del: run_stages.simps chain_argv.simps chain_argc.simps)
qed

text \<open>
  A stage behind \<open>exit\<close> is not reached: on \<open>exit | cd /srv\<close> the stage \<open>exit\<close>
  ends the shell at once, and the working directory stays as it was.
\<close>

lemma exit_ends_before_cd:
  "Parse glob_literal [Word ''exit'', Pipe, Word ''cd'', Word ''/srv'']
     = Inr (Node OP_PIPE None (Node WORD (Some ''exit'') Null Null)
             (Node WORD (Some ''cd'') Null (Node WORD (Some ''/srv'') Null Null)))
   \<and> AST_execute childless_os example_world
       (Node OP_PIPE None (Node WORD (Some ''exit'') Null Null)
          (Node WORD (Some ''cd'') Null (Node WORD (Some ''/srv'') Null Null)))
     = (Exited 0, \<lparr>cwd = ''/tmp'', children = [], printed = []\<rparr>)"
  by (simp add: Parse_def Parse_init_def Parse_pipe_def glob_append_def AST_word_def
        AST_pipe_def glob_literal_def AST_execute_def example_os_def childless_os_def
        example_world_def argv_at_def isword_def)

end
